theory Spec2Isabelle
  imports Complex_Main "HOL-Library.Product_Lexorder"
begin

section \<open>The numpy arrays of \<^verbatim>\<open>env.py\<close>\<close>

text \<open>
  The occupancy-grid code of \<^verbatim>\<open>src/home_platform/env.py\<close> works on two-dimensional
  numpy arrays. An array is its shape and its buffer in row-major (C) order, as numpy
  stores it: element \<open>[i, j]\<close> sits at position \<open>i * shape[1] + j\<close>. numpy only ever builds
  arrays whose buffer has \<open>shape[0] * shape[1]\<close> elements; \<open>well_shaped\<close> says so.
  Grid indices are Python integers (\<open>i - 1\<close> may be \<open>-1\<close>), hence \<open>int\<close>.
  Floating-point numbers are idealised as reals: sums, products and comparisons are exact.
\<close>

record 'a ndarray =
  shape0 :: nat
  shape1 :: nat
  flat :: "'a list"

type_synonym cell = "int \<times> int"

definition well_shaped :: "'a ndarray \<Rightarrow> bool" where
  "well_shaped a = (length (flat a) = shape0 a * shape1 a)"

definition offset :: "'a ndarray \<Rightarrow> cell \<Rightarrow> nat" where
  "offset a p = nat (fst p) * shape1 a + nat (snd p)"

definition unravel :: "'a ndarray \<Rightarrow> nat \<Rightarrow> cell" where
  "unravel a k = (int (k div shape1 a), int (k mod shape1 a))"

text \<open>The bounds test written out at line 67 of the source.\<close>

definition inbounds :: "'a ndarray \<Rightarrow> cell \<Rightarrow> bool" where
  "inbounds a p = (fst p \<ge> 0 \<and> fst p < int (shape0 a) \<and> snd p \<ge> 0 \<and> snd p < int (shape1 a))"

definition indices :: "'a ndarray \<Rightarrow> cell set" where
  "indices a = {0..<int (shape0 a)} \<times> {0..<int (shape1 a)}"

text \<open>
  \<open>item a (i, j)\<close> and \<open>setitem a (i, j) v\<close> are \<open>a[i, j]\<close> and \<open>a[i, j] = v\<close> for an index
  that is in bounds. The labelling loop only reads a neighbour after the bounds test and
  only writes cells it popped from the heap, which are in bounds (\<open>fire_inv\<close> below carries
  that fact), so numpy's IndexError and its wrap-around of negative indices never arise there.
  \<open>np_getitem\<close> is the checked read, used where the source indexes without a test.
\<close>

definition item :: "'a ndarray \<Rightarrow> cell \<Rightarrow> 'a" where
  "item a p = flat a ! offset a p"

definition setitem :: "'a ndarray \<Rightarrow> cell \<Rightarrow> 'a \<Rightarrow> 'a ndarray" where
  "setitem a p v = a\<lparr>flat := (flat a)[offset a p := v]\<rparr>"

text \<open>
  \<open>np.argwhere(a == v)\<close> lists the indices of the matching elements in row-major order;
  \<open>np.count_nonzero(a == v)\<close> counts them; \<open>a[a == v] = w\<close> overwrites them.
\<close>

definition argwhere :: "('a \<Rightarrow> bool) \<Rightarrow> 'a ndarray \<Rightarrow> cell list" where
  "argwhere P a = map (unravel a) (filter (\<lambda>k. P (flat a ! k)) [0..<length (flat a)])"

definition count_nonzero :: "('a \<Rightarrow> bool) \<Rightarrow> 'a ndarray \<Rightarrow> nat" where
  "count_nonzero P a = length (filter P (flat a))"

definition assign_where :: "('a \<Rightarrow> bool) \<Rightarrow> 'a \<Rightarrow> 'a ndarray \<Rightarrow> 'a ndarray" where
  "assign_where P v a = a\<lparr>flat := map (\<lambda>x. if P x then v else x) (flat a)\<rparr>"

definition np_all :: "('a \<Rightarrow> bool) \<Rightarrow> 'a ndarray \<Rightarrow> bool" where
  "np_all P a = list_all P (flat a)"

text \<open>
  The exceptions the modelled code can raise are Python's own: \<open>ValueError\<close>
  (\<open>np.max\<close> of an empty array, \<open>np.random.randint\<close> with \<open>low >= high\<close>), \<open>IndexError\<close>
  (an index out of range) and \<open>AssertionError\<close>. \<open>NoNavigableSpaceError\<close> and
  \<open>InvalidAreaError\<close> are the two error names of the specification; the source defines
  neither class and no definition below returns them. They are constructors here so that
  statements about them can be written.
\<close>

datatype error = ValueError | IndexError | AssertionError | NoNavigableSpaceError | InvalidAreaError

definition np_max :: "int ndarray \<Rightarrow> error + int" where
  "np_max a = (if flat a = [] then Inl ValueError else Inr (Max (set (flat a))))"

definition np_getitem :: "'a ndarray \<Rightarrow> cell \<Rightarrow> error + 'a" where
  "np_getitem a p =
     (let i = (if fst p < 0 then fst p + int (shape0 a) else fst p);
          j = (if snd p < 0 then snd p + int (shape1 a) else snd p)
      in if inbounds a (i, j) then Inr (item a (i, j)) else Inl IndexError)"

definition list_getitem :: "'a list \<Rightarrow> int \<Rightarrow> error + 'a" where
  "list_getitem xs i =
     (let n = int (length xs); k = (if i < 0 then i + n else i)
      in if 0 \<le> k \<and> k < n then Inr (xs ! nat k) else Inl IndexError)"

section \<open>\<^verbatim>\<open>extractAllRegions\<close> (lines 41 to 78)\<close>

text \<open>
  \<open>heapq\<close> is modelled by its contract: a priority queue of index pairs under Python's
  tuple order (lexicographic, \<open>Product_Lexorder\<close>), kept as a sorted list. \<open>heappush\<close>
  inserts, \<open>heappop\<close> takes the head, which is the least element. \<open>visited\<close> is the
  Python set of the source.

  \<open>visit\<close> is the body of the \<open>for ai, aj in [...]\<close> loop (lines 64 to 71) for one neighbour.
\<close>

definition heappush :: "cell list \<Rightarrow> cell \<Rightarrow> cell list" where
  "heappush heap p = insort p heap"

fun visit :: "int ndarray \<Rightarrow> cell \<Rightarrow> cell list \<times> cell set \<Rightarrow> cell list \<times> cell set" where
  "visit a (ai, aj) (heap, visited) =
     (if ai \<ge> 0 \<and> ai < int (shape0 a) \<and> aj \<ge> 0 \<and> aj < int (shape1 a) then
        (if item a (ai, aj) = 0 \<and> (ai, aj) \<notin> visited
         then (heappush heap (ai, aj), insert (ai, aj) visited)
         else (heap, visited))
      else (heap, visited))"

text \<open>
  The inner loop \<open>while len(heap) > 0\<close> (lines 58 to 71). It stops: every pass removes one
  heap entry, and every entry pushed is an in-bounds cell that was not in \<open>visited\<close> before.
\<close>

definition fire_measure :: "int ndarray \<Rightarrow> cell list \<times> cell set \<Rightarrow> nat" where
  "fire_measure a hv = 2 * card (indices a - snd hv) + length (fst hv)"

lemma finite_indices: "finite (indices a)"
  by (simp add: indices_def)

lemma visit_measure: "fire_measure a (visit a p hv) \<le> fire_measure a hv"
proof (cases p; cases hv)
  fix ai aj heap visited
  assume p: "p = (ai, aj)" and hv: "hv = (heap, visited)"
  show ?thesis
  proof (cases "ai \<ge> 0 \<and> ai < int (shape0 a) \<and> aj \<ge> 0 \<and> aj < int (shape1 a)
                  \<and> item a (ai, aj) = 0 \<and> (ai, aj) \<notin> visited")
    case True
    then have "(ai, aj) \<in> indices a - visited" by (simp add: indices_def)
    then have "card (indices a - insert (ai, aj) visited) < card (indices a - visited)"
      by (metis Diff_insert card_Diff1_less finite_Diff finite_indices)
    with True show ?thesis by (simp add: p hv fire_measure_def heappush_def)
  next
    case False
    then show ?thesis by (auto simp: p hv)
  qed
qed

lemma fold_visit_measure: "fire_measure a (fold (visit a) ps hv) \<le> fire_measure a hv"
proof (induction ps arbitrary: hv)
  case Nil
  show ?case by simp
next
  case (Cons p ps)
  have "fire_measure a (fold (visit a) ps (visit a p hv)) \<le> fire_measure a (visit a p hv)"
    by (rule Cons.IH)
  also have "\<dots> \<le> fire_measure a hv" by (rule visit_measure)
  finally show ?case by simp
qed

function grassfire :: "int \<Rightarrow> cell list \<times> cell set \<Rightarrow> int ndarray \<Rightarrow> int ndarray" where
  "grassfire curRegionId (heap, visited) a =
     (case heap of
        [] \<Rightarrow> a
      | (i, j) # rest \<Rightarrow>
          (let a' = setitem a (i, j) curRegionId
           in grassfire curRegionId
                (fold (visit a') [(i + 1, j), (i - 1, j), (i, j + 1), (i, j - 1)] (rest, visited)) a'))"
  by pat_completeness auto
termination
proof (relation "measure (\<lambda>(c, hv, a). fire_measure a hv)")
  show "wf (measure (\<lambda>(c, hv, a). fire_measure a hv))" by simp
next
  fix curRegionId :: int and heap :: "cell list" and visited :: "cell set" and a :: "int ndarray"
    and x21 x22 x y xa
  assume h: "heap = x21 # x22" and xa: "xa = setitem a (x, y) curRegionId"
  let ?ns = "[(x + 1, y), (x - 1, y), (x, y + 1), (x, y - 1)]"
  have "fire_measure xa (fold (visit xa) ?ns (x22, visited)) \<le> fire_measure xa (x22, visited)"
    by (rule fold_visit_measure)
  also have "\<dots> < fire_measure a (heap, visited)"
    by (simp add: fire_measure_def h xa indices_def setitem_def)
  finally show "((curRegionId, fold (visit xa) ?ns (x22, visited), xa),
         curRegionId, (heap, visited), a) \<in> measure (\<lambda>(c, hv, a). fire_measure a hv)"
    by simp
qed

declare grassfire.simps [simp del]

text \<open>
  The outer loop \<open>while np.count_nonzero(occupacyGrid == 0) > 0\<close> (lines 46 to 73). Each pass
  seeds the heap and the visited set with the first zero cell of the row-major scan
  (\<open>np.argwhere(occupacyGrid == 0)[0]\<close>; the list is not empty under the loop guard), runs
  the inner loop and increments \<open>curRegionId\<close>. As a function of an arbitrary
  \<open>curRegionId\<close> the loop need not stop (with \<open>curRegionId = 0\<close> a pass changes nothing),
  so the result is an option, \<open>None\<close> for a loop that never ends; \<open>label_regions_spec\<close>
  proves that from \<open>curRegionId = 1\<close> it always returns.
\<close>

partial_function (option) label_regions :: "int \<Rightarrow> int ndarray \<Rightarrow> (int \<times> int ndarray) option" where
  "label_regions curRegionId a =
     (if count_nonzero (\<lambda>x. x = 0) a > 0 then
        (let start = hd (argwhere (\<lambda>x. x = 0) a)
         in label_regions (curRegionId + 1)
              (grassfire curRegionId (heappush [] start, insert start {}) a))
      else Some (curRegionId, a))"

declare label_regions.simps [code]

text \<open>
  The function itself. Its argument is the array after \<open>np.atleast_2d(...).astype(np.int)\<close>
  (line 42): a two-dimensional integer array with the caller's values. Line 43 marks every
  non-zero cell with \<open>-1\<close>; line 75 is the assertion.
\<close>

definition extractAllRegions :: "int ndarray \<Rightarrow> (error + int ndarray) option" where
  "extractAllRegions occupacyGrid =
     (let a = assign_where (\<lambda>x. x \<noteq> 0) (- 1) occupacyGrid
      in case label_regions 1 a of
           None \<Rightarrow> None
         | Some (curRegionId, a') \<Rightarrow>
             if np_all (\<lambda>x. x \<noteq> 0) a' then Some (Inr a') else Some (Inl AssertionError))"

text \<open>
  The same function over a store of array objects, for what it does to its caller's array.
  A reference is a position in the store. Line 42 rebinds the local name to the new array
  that \<open>astype\<close> allocates (a copy, as \<open>astype\<close> makes by default); every later write of the
  function (line 43, line 61) goes through that name.
\<close>

type_synonym store = "int ndarray list"

definition extractAllRegions_store :: "store \<Rightarrow> nat \<Rightarrow> (error + nat \<times> store) option" where
  "extractAllRegions_store st ref =
     (let new = length st;
          st1 = st @ [st ! ref];
          st2 = st1[new := assign_where (\<lambda>x. x \<noteq> 0) (- 1) (st1 ! new)]
      in case label_regions 1 (st2 ! new) of
           None \<Rightarrow> None
         | Some (curRegionId, a') \<Rightarrow>
             (let st3 = st2[new := a']
              in if np_all (\<lambda>x. x \<noteq> 0) (st3 ! new) then Some (Inr (new, st3))
                 else Some (Inl AssertionError)))"

section \<open>\<^verbatim>\<open>generateOccupancyMap\<close> (lines 148 to 172)\<close>

text \<open>
  \<open>physicWorld.calculate2dNavigationMap\<close> belongs to another module; it is a parameter, a
  function of \<open>z\<close> and \<open>precision\<close> that returns the occupancy map and the coordinate map
  (an array of \<open>(x, y)\<close> pairs). \<open>filter_step\<close> is the body of the loop
  \<open>for r in range(1, nbRegions + 1)\<close> (lines 159 to 167) over the three variables it
  updates; \<open>filter_regions\<close> is lines 156 to 169, the local list \<open>regionAreas\<close> included.
  The method stores the label map and the coordinate map in \<open>self\<close> and returns the two
  attributes; the model returns that pair.
\<close>

type_synonym coordmap = "(real \<times> real) ndarray"

definition filter_step ::
  "real \<Rightarrow> real \<Rightarrow> int \<Rightarrow> int ndarray \<times> real list \<times> int \<Rightarrow> int ndarray \<times> real list \<times> int" where
  "filter_step cellArea minRegionArea r st =
     (case st of (labeledNavMap, regionAreas, curValidRegionId) \<Rightarrow>
        (let nbCells = count_nonzero (\<lambda>x. x = r) labeledNavMap;
             regionArea = real nbCells * cellArea
         in if regionArea < minRegionArea
            then (assign_where (\<lambda>x. x = r) (- 1) labeledNavMap, regionAreas, curValidRegionId)
            else (assign_where (\<lambda>x. x = r) curValidRegionId labeledNavMap,
                  regionAreas @ [regionArea], curValidRegionId + 1)))"

definition filter_regions ::
  "real \<Rightarrow> real \<Rightarrow> int ndarray \<Rightarrow> (error + int ndarray \<times> real list \<times> int)" where
  "filter_regions cellArea minRegionArea labeledNavMap =
     (case np_max labeledNavMap of
        Inl e \<Rightarrow> Inl e
      | Inr nbRegions \<Rightarrow>
          (case fold (filter_step cellArea minRegionArea) [1..nbRegions] (labeledNavMap, [], 1) of
             (labeledNavMap', regionAreas, curValidRegionId) \<Rightarrow>
               if np_all (\<lambda>x. x \<noteq> 0) labeledNavMap'
               then Inr (labeledNavMap', regionAreas, curValidRegionId)
               else Inl AssertionError))"

definition generateOccupancyMap ::
  "(real \<Rightarrow> real \<Rightarrow> int ndarray \<times> coordmap) \<Rightarrow> real \<Rightarrow> real \<Rightarrow> real
     \<Rightarrow> (error + int ndarray \<times> coordmap) option" where
  "generateOccupancyMap calculate2dNavigationMap minRegionArea z precision =
     (let cellArea = precision ^ 2
      in case calculate2dNavigationMap z precision of
           (occupancyMap, occupancyMapCoord) \<Rightarrow>
             (case extractAllRegions occupancyMap of
                None \<Rightarrow> None
              | Some (Inl e) \<Rightarrow> Some (Inl e)
              | Some (Inr labeledNavMap) \<Rightarrow>
                  (case filter_regions cellArea minRegionArea labeledNavMap of
                     Inl e \<Rightarrow> Some (Inl e)
                   | Inr (labeledNavMap', regionAreas, curValidRegionId) \<Rightarrow>
                       Some (Inr (labeledNavMap', occupancyMapCoord)))))"

section \<open>\<^verbatim>\<open>generateSpawnPositions\<close> (lines 174 to 214)\<close>

text \<open>
  \<open>np.random\<close> is a parameter too: a state \<open>'r\<close> and the two draws the method makes,
  \<open>np.random.random()\<close> and \<open>np.random.randint(low, high)\<close> for \<open>low < high\<close>, each returning its
  value and the next state. \<open>np_randint\<close> adds the ValueError numpy raises for an empty
  range.
\<close>

record 'r random_source =
  rand_random :: "'r \<Rightarrow> real \<times> 'r"
  rand_randint :: "int \<Rightarrow> int \<Rightarrow> 'r \<Rightarrow> int \<times> 'r"

definition np_randint :: "'r random_source \<Rightarrow> int \<Rightarrow> int \<Rightarrow> 'r \<Rightarrow> error + int \<times> 'r" where
  "np_randint R low high rs = (if low \<ge> high then Inl ValueError else Inr (rand_randint R low high rs))"

text \<open>
  Lines 180 to 190. \<open>regionAreas /= np.sum(regionAreas)\<close> divides by zero when the areas
  sum to \<open>0.0\<close>; numpy then stores \<open>nan\<close> and goes on (the areas are non-negative multiples of
  \<open>cellArea\<close>, so a zero sum has only zero terms and every quotient is \<open>0.0 / 0.0\<close>). A
  \<open>float64\<close> is therefore a real or \<open>None\<close> for \<open>nan\<close>; a sum with \<open>nan\<close> is \<open>nan\<close>, and
  \<open>nan < r\<close> is false.
\<close>

type_synonym float64 = "real option"

definition float_add :: "float64 \<Rightarrow> float64 \<Rightarrow> float64" where
  "float_add x y = (case (x, y) of (Some a, Some b) \<Rightarrow> Some (a + b) | _ \<Rightarrow> None)"

definition float_less :: "float64 \<Rightarrow> real \<Rightarrow> bool" where
  "float_less x r = (case x of Some a \<Rightarrow> a < r | None \<Rightarrow> False)"

definition float_divide :: "real \<Rightarrow> real \<Rightarrow> float64" where
  "float_divide a t = (if t = 0 then None else Some (a / t))"

fun cumsum_from :: "float64 \<Rightarrow> float64 list \<Rightarrow> float64 list" where
  "cumsum_from acc [] = []"
| "cumsum_from acc (x # xs) = float_add acc x # cumsum_from (float_add acc x) xs"

definition np_cumsum :: "float64 list \<Rightarrow> float64 list" where
  "np_cumsum xs = cumsum_from (Some 0) xs"

definition region_areas :: "real \<Rightarrow> int ndarray \<Rightarrow> int \<Rightarrow> real list" where
  "region_areas cellArea labeledNavMap nbRegions =
     map (\<lambda>r. real (count_nonzero (\<lambda>x. x = r) labeledNavMap) * cellArea) [1..nbRegions]"

definition cumulative_shares :: "real list \<Rightarrow> float64 list" where
  "cumulative_shares regionAreas =
     np_cumsum (map (\<lambda>a. float_divide a (sum_list regionAreas)) regionAreas)"

text \<open>
  Lines 198 and 199: \<open>idx = np.argwhere(s < r)[-1] + 1\<close>, \<open>selRegionId = idx + 1\<close>. Indexing the
  empty result of \<open>argwhere\<close> with \<open>-1\<close> raises IndexError.
\<close>

definition select_region :: "float64 list \<Rightarrow> real \<Rightarrow> error + int" where
  "select_region s r =
     (case filter (\<lambda>k. float_less (s ! k) r) [0..<length s] of
        [] \<Rightarrow> Inl IndexError
      | k # ks \<Rightarrow> Inr (int (last (k # ks)) + 1 + 1))"

text \<open>
  The loop \<open>for _ in range(n)\<close> (lines 193 to 209), over the list of positions and the
  state of the random source.
\<close>

fun draw_positions ::
  "'r random_source \<Rightarrow> float64 list \<Rightarrow> int ndarray \<Rightarrow> coordmap \<Rightarrow> nat \<Rightarrow> (real \<times> real) list \<Rightarrow> 'r
     \<Rightarrow> error + (real \<times> real) list \<times> 'r" where
  "draw_positions R s labeledNavMap occupancyMapCoord 0 positions rs = Inr (positions, rs)"
| "draw_positions R s labeledNavMap occupancyMapCoord (Suc n) positions rs =
     (case (if length s > 1
            then (case rand_random R rs of
                    (r, rs') \<Rightarrow> (case select_region s r of Inl e \<Rightarrow> Inl e | Inr sel \<Rightarrow> Inr (sel, rs')))
            else Inr (1, rs)) of
        Inl e \<Rightarrow> Inl e
      | Inr (selRegionId, rs1) \<Rightarrow>
          (let coord = argwhere (\<lambda>x. x = selRegionId) labeledNavMap
           in case np_randint R 0 (int (length coord)) rs1 of
                Inl e \<Rightarrow> Inl e
              | Inr (r, rs2) \<Rightarrow>
                  (case list_getitem coord r of
                     Inl e \<Rightarrow> Inl e
                   | Inr (i, j) \<Rightarrow>
                       (case np_getitem occupancyMapCoord (i, j) of
                          Inl e \<Rightarrow> Inl e
                        | Inr (x, y) \<Rightarrow>
                            draw_positions R s labeledNavMap occupancyMapCoord n
                              (positions @ [(x, y)]) rs2))))"

text \<open>Lines 211 and 212: \<open>np.zeros(shape)\<close> and the masked assignment of \<open>1.0\<close>.\<close>

definition np_zeros :: "nat \<Rightarrow> nat \<Rightarrow> real ndarray" where
  "np_zeros h w = \<lparr>shape0 = h, shape1 = w, flat = replicate (h * w) 0\<rparr>"

definition assign_mask :: "bool list \<Rightarrow> 'a \<Rightarrow> 'a ndarray \<Rightarrow> 'a ndarray" where
  "assign_mask ms v a = a\<lparr>flat := map (\<lambda>(m, x). if m then v else x) (zip ms (flat a))\<rparr>"

definition generateSpawnPositions ::
  "'r random_source \<Rightarrow> (real \<Rightarrow> real \<Rightarrow> int ndarray \<times> coordmap) \<Rightarrow> nat \<Rightarrow> real \<Rightarrow> real \<Rightarrow> real \<Rightarrow> 'r
     \<Rightarrow> (error + (real ndarray \<times> coordmap \<times> (real \<times> real) list) \<times> 'r) option" where
  "generateSpawnPositions R calculate2dNavigationMap n minRegionArea z precision rs =
     (case generateOccupancyMap calculate2dNavigationMap minRegionArea z precision of
        None \<Rightarrow> None
      | Some (Inl e) \<Rightarrow> Some (Inl e)
      | Some (Inr (labeledNavMap, occupancyMapCoord)) \<Rightarrow>
          Some (let cellArea = precision ^ 2
                in case np_max labeledNavMap of
                     Inl e \<Rightarrow> Inl e
                   | Inr nbRegions \<Rightarrow>
                       (let regionAreas = region_areas cellArea labeledNavMap nbRegions;
                            s = cumulative_shares regionAreas
                        in case draw_positions R s labeledNavMap occupancyMapCoord n [] rs of
                             Inl e \<Rightarrow> Inl e
                           | Inr (positions, rs') \<Rightarrow>
                               (let occupancyMap =
                                      assign_mask (map (\<lambda>x. x = - 1) (flat labeledNavMap)) 1
                                        (np_zeros (shape0 labeledNavMap) (shape1 labeledNavMap))
                                in Inr ((occupancyMap, occupancyMapCoord, positions), rs')))))"

section \<open>Free cells and their connectivity\<close>

text \<open>
  A cell of a grid is free when it is in bounds and holds \<open>0\<close>. Two cells are adjacent when
  they share an edge. Two free cells are connected when a path of free cells, each adjacent
  to the next, leads from one to the other.
\<close>

definition free :: "int ndarray \<Rightarrow> cell \<Rightarrow> bool" where
  "free a p = (inbounds a p \<and> item a p = 0)"

definition adjacent :: "cell \<Rightarrow> cell \<Rightarrow> bool" where
  "adjacent p q = (\<bar>fst p - fst q\<bar> + \<bar>snd p - snd q\<bar> = 1)"

definition free_step :: "int ndarray \<Rightarrow> cell \<Rightarrow> cell \<Rightarrow> bool" where
  "free_step a p q = (free a p \<and> free a q \<and> adjacent p q)"

definition free_connected :: "int ndarray \<Rightarrow> cell \<Rightarrow> cell \<Rightarrow> bool" where
  "free_connected a p q = (free a p \<and> free a q \<and> (free_step a)\<^sup>*\<^sup>* p q)"

text \<open>
  The seed of a label is its first cell in the row-major scan; \<open>seed_offset\<close> is the
  position of that cell in the scan.
\<close>

definition seed_offset :: "int ndarray \<Rightarrow> int \<Rightarrow> nat" where
  "seed_offset a k = offset a (hd (argwhere (\<lambda>x. x = k) a))"

text \<open>
  What the filtering loop computes, in closed form. A region \<open>r\<close> is kept when its area is not
  below the threshold (the test of line 162, on the cell count of \<open>r\<close> in the grid the loop
  starts from); the new label of a kept region is the number of kept regions up to it; the
  filtered grid relabels every cell of a region \<open>1..m\<close> accordingly and leaves every other
  cell as it is. \<open>fold_filter_step\<close> proves that the loop computes exactly this.
\<close>

definition region_kept :: "real \<Rightarrow> real \<Rightarrow> int ndarray \<Rightarrow> int \<Rightarrow> bool" where
  "region_kept cellArea minRegionArea a r =
     (\<not> real (count_nonzero (\<lambda>x. x = r) a) * cellArea < minRegionArea)"

definition new_label :: "real \<Rightarrow> real \<Rightarrow> int ndarray \<Rightarrow> int \<Rightarrow> int" where
  "new_label cellArea minRegionArea a r = int (length (filter (region_kept cellArea minRegionArea a) [1..r]))"

definition relabel :: "real \<Rightarrow> real \<Rightarrow> int ndarray \<Rightarrow> int \<Rightarrow> int \<Rightarrow> int" where
  "relabel cellArea minRegionArea a m v =
     (if 1 \<le> v \<and> v \<le> m
      then (if region_kept cellArea minRegionArea a v then new_label cellArea minRegionArea a v else - 1)
      else v)"

definition relabelled :: "real \<Rightarrow> real \<Rightarrow> int ndarray \<Rightarrow> int \<Rightarrow> int ndarray" where
  "relabelled c T a R = a\<lparr>flat := map (relabel c T a R) (flat a)\<rparr>"

text \<open>
  A grid is a region labelling with \<open>R\<close> regions when it is a non-empty array whose cells hold
  \<open>-1\<close> or a label, the labels in use are exactly \<open>1..R\<close>, and they are numbered in the order
  of first appearance in the row-major scan.
\<close>

definition region_labelling :: "int ndarray \<Rightarrow> int \<Rightarrow> bool" where
  "region_labelling a R =
     (well_shaped a \<and> flat a \<noteq> [] \<and> 0 \<le> R
      \<and> (\<forall>x\<in>set (flat a). x = - 1 \<or> 1 \<le> x)
      \<and> {x \<in> set (flat a). 0 < x} = {1..R}
      \<and> (\<forall>k k'. 1 \<le> k \<and> k < k' \<and> k' \<le> R \<longrightarrow> seed_offset a k < seed_offset a k'))"

text \<open>
  A scene for the closed instances below: a 3 by 3 grid whose free cells form three regions,
  of one, three and one cells.
\<close>

definition scene_grid :: "int ndarray" where
  "scene_grid = \<lparr>shape0 = 3, shape1 = 3, flat = [1, 0, 1, 0, 1, 0, 0, 0, 1]\<rparr>"

definition scene_labelled :: "int ndarray" where
  "scene_labelled = \<lparr>shape0 = 3, shape1 = 3, flat = [- 1, 1, - 1, 2, - 1, 3, 2, 2, - 1]\<rparr>"

definition scene_coord :: coordmap where
  "scene_coord = \<lparr>shape0 = 3, shape1 = 3,
     flat = [(0, 0), (0, 1), (0, 2), (1, 0), (1, 1), (1, 2), (2, 0), (2, 1), (2, 2)]\<rparr>"

definition scene_nav :: "real \<Rightarrow> real \<Rightarrow> int ndarray \<times> coordmap" where
  "scene_nav z precision = (scene_grid, scene_coord)"

section \<open>Array lemmas\<close>

lemma inbounds_indices: "inbounds a p \<longleftrightarrow> p \<in> indices a"
  by (cases p) (auto simp: inbounds_def indices_def)

lemma offset_less:
  assumes "well_shaped a" and "p \<in> indices a"
  shows "offset a p < length (flat a)"
proof -
  obtain i j where p: "p = (i, j)" by (cases p)
  from assms(2) p have i: "nat i < shape0 a" and j: "nat j < shape1 a"
    by (auto simp: indices_def)
  have "nat i * shape1 a + nat j < nat i * shape1 a + shape1 a" using j by simp
  also have "\<dots> = Suc (nat i) * shape1 a" by simp
  also have "\<dots> \<le> shape0 a * shape1 a" using i by (intro mult_le_mono1) simp
  finally show ?thesis using assms(1) by (simp add: offset_def well_shaped_def p)
qed

lemma unravel_offset:
  assumes "p \<in> indices a"
  shows "unravel a (offset a p) = p"
proof -
  obtain i j where p: "p = (i, j)" by (cases p)
  from assms p have i: "0 \<le> i" and j: "0 \<le> j" "nat j < shape1 a"
    by (auto simp: indices_def)
  then show ?thesis by (simp add: unravel_def offset_def p)
qed

lemma offset_unravel:
  assumes "well_shaped a" and "k < length (flat a)"
  shows "unravel a k \<in> indices a" and "offset a (unravel a k) = k"
proof -
  from assms have k: "k < shape0 a * shape1 a" by (simp add: well_shaped_def)
  then have w: "0 < shape1 a" by (cases "shape1 a") auto
  from k have "k div shape1 a < shape0 a"
    by (simp add: less_mult_imp_div_less)
  with w show "unravel a k \<in> indices a" by (simp add: unravel_def indices_def)
  show "offset a (unravel a k) = k" by (simp add: unravel_def offset_def)
qed

lemma offset_inj:
  assumes "p \<in> indices a" and "q \<in> indices a" and "offset a p = offset a q"
  shows "p = q"
  by (metis assms unravel_offset)

lemma shape_setitem [simp]:
  "shape0 (setitem a p v) = shape0 a" "shape1 (setitem a p v) = shape1 a"
  "length (flat (setitem a p v)) = length (flat a)"
  by (simp_all add: setitem_def)

lemma indices_setitem [simp]: "indices (setitem a p v) = indices a"
  by (simp add: indices_def)

lemma well_shaped_setitem [simp]: "well_shaped (setitem a p v) = well_shaped a"
  by (simp add: well_shaped_def)

lemma offset_setitem [simp]: "offset (setitem a p v) q = offset a q"
  by (simp add: offset_def)

lemma flat_setitem: "flat (setitem a p v) = (flat a)[offset a p := v]"
  by (simp add: setitem_def)

lemma item_setitem:
  assumes "well_shaped a" and "p \<in> indices a" and "q \<in> indices a"
  shows "item (setitem a p v) q = (if q = p then v else item a q)"
proof (cases "q = p")
  case True
  with assms show ?thesis by (simp add: item_def flat_setitem offset_less)
next
  case False
  with assms have "offset a p \<noteq> offset a q" using offset_inj by blast
  with False show ?thesis by (simp add: item_def flat_setitem)
qed

lemma shape_assign_where [simp]:
  "shape0 (assign_where P v a) = shape0 a" "shape1 (assign_where P v a) = shape1 a"
  "length (flat (assign_where P v a)) = length (flat a)"
  by (simp_all add: assign_where_def)

lemma indices_assign_where [simp]: "indices (assign_where P v a) = indices a"
  by (simp add: indices_def)

lemma well_shaped_assign_where [simp]: "well_shaped (assign_where P v a) = well_shaped a"
  by (simp add: well_shaped_def)

lemma item_assign_where:
  assumes "well_shaped a" and "p \<in> indices a"
  shows "item (assign_where P v a) p = (if P (item a p) then v else item a p)"
  using offset_less [OF assms] by (simp add: item_def assign_where_def offset_def)

lemma set_flat:
  assumes "well_shaped a"
  shows "set (flat a) = item a ` indices a"
proof (intro set_eqI iffI)
  fix x assume "x \<in> set (flat a)"
  then obtain k where k: "k < length (flat a)" "flat a ! k = x" by (auto simp: in_set_conv_nth)
  with offset_unravel [OF assms k(1)] show "x \<in> item a ` indices a"
    by (auto simp: item_def image_iff intro!: bexI [of _ "unravel a k"])
next
  fix x assume "x \<in> item a ` indices a"
  then obtain p where "p \<in> indices a" "x = item a p" by auto
  with offset_less [OF assms] show "x \<in> set (flat a)" by (auto simp: item_def)
qed

lemma count_nonzero_card:
  assumes "well_shaped a"
  shows "count_nonzero P a = card {p \<in> indices a. P (item a p)}"
proof -
  let ?K = "{k. k < length (flat a) \<and> P (flat a ! k)}"
  have img: "unravel a ` ?K = {p \<in> indices a. P (item a p)}"
  proof (intro set_eqI iffI)
    fix p assume "p \<in> unravel a ` ?K"
    then obtain k where "k < length (flat a)" "P (flat a ! k)" "p = unravel a k" by auto
    with offset_unravel [OF assms, of k] show "p \<in> {p \<in> indices a. P (item a p)}"
      by (simp add: item_def)
  next
    fix p assume "p \<in> {p \<in> indices a. P (item a p)}"
    then have p: "p \<in> indices a" "P (flat a ! offset a p)" by (auto simp: item_def)
    with offset_less [OF assms p(1)] unravel_offset [OF p(1)] show "p \<in> unravel a ` ?K"
      by (auto simp: image_iff intro!: exI [of _ "offset a p"])
  qed
  have inj: "inj_on (unravel a) ?K"
  proof (rule inj_onI)
    fix k k' assume "k \<in> ?K" "k' \<in> ?K" and eq: "unravel a k = unravel a k'"
    then have "k < length (flat a)" "k' < length (flat a)" by simp_all
    then have "offset a (unravel a k) = k" "offset a (unravel a k') = k'"
      by (simp_all add: offset_unravel(2) [OF assms])
    with eq show "k = k'" by metis
  qed
  have "card (unravel a ` ?K) = card ?K" using inj by (rule card_image)
  then have "card {p \<in> indices a. P (item a p)} = card ?K" by (simp only: img)
  moreover have "count_nonzero P a = card ?K"
    unfolding count_nonzero_def length_filter_conv_card ..
  ultimately show ?thesis by simp
qed

subsection \<open>Connectivity\<close>

lemma adjacent_iff: "adjacent (i, j) q \<longleftrightarrow> q \<in> set [(i + 1, j), (i - 1, j), (i, j + 1), (i, j - 1)]"
  by (cases q) (auto simp: adjacent_def)

lemma adjacent_sym: "adjacent p q \<Longrightarrow> adjacent q p"
  by (auto simp: adjacent_def)

lemma free_step_sym: "free_step a p q \<Longrightarrow> free_step a q p"
  by (auto simp: free_step_def adjacent_sym)

lemma free_steps_sym: "(free_step a)\<^sup>*\<^sup>* p q \<Longrightarrow> (free_step a)\<^sup>*\<^sup>* q p"
proof (induction rule: rtranclp_induct)
  case base
  show ?case by simp
next
  case (step y z)
  from step.hyps(2) have "free_step a z y" by (rule free_step_sym)
  then show ?case using step.IH by (rule converse_rtranclp_into_rtranclp)
qed

lemma free_connected_refl: "free a p \<Longrightarrow> free_connected a p p"
  by (simp add: free_connected_def)

lemma free_connected_sym: "free_connected a p q \<Longrightarrow> free_connected a q p"
  by (auto simp: free_connected_def free_steps_sym)

lemma free_connected_trans: "free_connected a p q \<Longrightarrow> free_connected a q r \<Longrightarrow> free_connected a p r"
  by (auto simp: free_connected_def)

lemma free_connected_step:
  assumes "free_connected a p q" and "free a r" and "adjacent q r"
  shows "free_connected a p r"
proof -
  from assms have "(free_step a)\<^sup>*\<^sup>* p q" and "free_step a q r"
    by (simp_all add: free_connected_def free_step_def)
  then have "(free_step a)\<^sup>*\<^sup>* p r" by (rule rtranclp.rtrancl_into_rtrancl)
  with assms show ?thesis by (simp add: free_connected_def)
qed

lemma free_connected_free: "free_connected a p q \<Longrightarrow> free a p \<and> free a q"
  by (simp add: free_connected_def)

lemma visit_eq:
  "visit a q (heap, visited) =
     (if q \<in> indices a \<and> item a q = 0 \<and> q \<notin> visited
      then (insort q heap, insert q visited) else (heap, visited))"
  by (cases q) (auto simp: indices_def heappush_def)

lemma fold_visit_sets:
  assumes "distinct heap" and "set heap \<subseteq> visited"
  shows "\<exists>N. N \<subseteq> set ps \<and> N \<inter> visited = {} \<and> (\<forall>q\<in>N. q \<in> indices a \<and> item a q = 0)
           \<and> (\<forall>q\<in>set ps. q \<in> indices a \<and> item a q = 0 \<longrightarrow> q \<in> visited \<union> N)
           \<and> set (fst (fold (visit a) ps (heap, visited))) = set heap \<union> N
           \<and> snd (fold (visit a) ps (heap, visited)) = visited \<union> N
           \<and> distinct (fst (fold (visit a) ps (heap, visited)))"
  using assms
proof (induction ps arbitrary: heap visited)
  case Nil
  then show ?case by simp
next
  case (Cons q ps)
  show ?case
  proof (cases "q \<in> indices a \<and> item a q = 0 \<and> q \<notin> visited")
    case True
    then have v: "visit a q (heap, visited) = (insort q heap, insert q visited)"
      by (simp add: visit_eq)
    from Cons.prems True have "distinct (insort q heap)" "set (insort q heap) \<subseteq> insert q visited"
      by (auto simp: distinct_insort set_insort_key)
    from Cons.IH [OF this] obtain N where N: "N \<subseteq> set ps" "N \<inter> insert q visited = {}"
      "\<forall>q\<in>N. q \<in> indices a \<and> item a q = 0"
      "\<forall>x\<in>set ps. x \<in> indices a \<and> item a x = 0 \<longrightarrow> x \<in> insert q visited \<union> N"
      "set (fst (fold (visit a) ps (insort q heap, insert q visited))) = set (insort q heap) \<union> N"
      "snd (fold (visit a) ps (insort q heap, insert q visited)) = insert q visited \<union> N"
      "distinct (fst (fold (visit a) ps (insort q heap, insert q visited)))"
      by blast
    show ?thesis
    proof (intro exI [of _ "insert q N"] conjI)
      show "insert q N \<subseteq> set (q # ps)" using N(1) by auto
      show "insert q N \<inter> visited = {}" using N(2) True by auto
      show "\<forall>x\<in>insert q N. x \<in> indices a \<and> item a x = 0" using N(3) True by auto
      show "\<forall>x\<in>set (q # ps). x \<in> indices a \<and> item a x = 0 \<longrightarrow> x \<in> visited \<union> insert q N"
        using N(4) by auto
      show "set (fst (fold (visit a) (q # ps) (heap, visited))) = set heap \<union> insert q N"
        using N(5) by (simp add: v set_insort_key)
      show "snd (fold (visit a) (q # ps) (heap, visited)) = visited \<union> insert q N"
        using N(6) by (simp add: v)
      show "distinct (fst (fold (visit a) (q # ps) (heap, visited)))"
        using N(7) by (simp add: v)
    qed
  next
    case False
    then have v: "visit a q (heap, visited) = (heap, visited)"
      by (auto simp: visit_eq)
    from Cons.IH [OF Cons.prems] obtain N where N: "N \<subseteq> set ps" "N \<inter> visited = {}"
      "\<forall>q\<in>N. q \<in> indices a \<and> item a q = 0"
      "\<forall>x\<in>set ps. x \<in> indices a \<and> item a x = 0 \<longrightarrow> x \<in> visited \<union> N"
      "set (fst (fold (visit a) ps (heap, visited))) = set heap \<union> N"
      "snd (fold (visit a) ps (heap, visited)) = visited \<union> N"
      "distinct (fst (fold (visit a) ps (heap, visited)))"
      by blast
    show ?thesis
    proof (intro exI [of _ N] conjI)
      show "N \<subseteq> set (q # ps)" using N(1) by auto
      show "N \<inter> visited = {}" by (rule N(2))
      show "\<forall>x\<in>N. x \<in> indices a \<and> item a x = 0" by (rule N(3))
      show "\<forall>x\<in>set (q # ps). x \<in> indices a \<and> item a x = 0 \<longrightarrow> x \<in> visited \<union> N"
        using N(4) False by auto
      show "set (fst (fold (visit a) (q # ps) (heap, visited))) = set heap \<union> N"
        using N(5) by (simp add: v)
      show "snd (fold (visit a) (q # ps) (heap, visited)) = visited \<union> N"
        using N(6) by (simp add: v)
      show "distinct (fst (fold (visit a) (q # ps) (heap, visited)))"
        using N(7) by (simp add: v)
    qed
  qed
qed

section \<open>The grassfire pass\<close>

definition fire_inv :: "int ndarray \<Rightarrow> cell \<Rightarrow> int \<Rightarrow> cell list \<times> cell set \<Rightarrow> int ndarray \<Rightarrow> bool" where
  "fire_inv a0 st cur hv a =
     (well_shaped a \<and> shape0 a = shape0 a0 \<and> shape1 a = shape1 a0
      \<and> distinct (fst hv) \<and> set (fst hv) \<subseteq> snd hv
      \<and> snd hv \<subseteq> {q. free_connected a0 st q} \<and> st \<in> snd hv
      \<and> (\<forall>p\<in>indices a0. item a p = (if p \<in> snd hv - set (fst hv) then cur else item a0 p))
      \<and> (\<forall>p\<in>snd hv - set (fst hv). \<forall>q. adjacent p q \<and> free a0 q \<longrightarrow> q \<in> snd hv))"

lemma indices_cong: "shape0 a = shape0 b \<Longrightarrow> shape1 a = shape1 b \<Longrightarrow> indices a = indices b"
  by (simp add: indices_def)

lemma free_indices: "free a p \<Longrightarrow> p \<in> indices a"
  by (simp add: free_def inbounds_indices)

lemma fire_inv_step:
  assumes inv: "fire_inv a0 st cur ((i, j) # rest, visited) a" and cur: "cur \<noteq> 0"
  defines "a' \<equiv> setitem a (i, j) cur"
  defines "ns \<equiv> [(i + 1, j), (i - 1, j), (i, j + 1), (i, j - 1)]"
  shows "fire_inv a0 st cur (fold (visit a') ns (rest, visited)) a'"
proof -
  let ?p = "(i, j)"
  from inv have ws: "well_shaped a" and sh: "shape0 a = shape0 a0" "shape1 a = shape1 a0"
    and dist: "distinct (?p # rest)" and sub: "set (?p # rest) \<subseteq> visited"
    and comp: "visited \<subseteq> {q. free_connected a0 st q}" and st: "st \<in> visited"
    and val: "\<forall>x\<in>indices a0. item a x = (if x \<in> visited - set (?p # rest) then cur else item a0 x)"
    and clo: "\<forall>x\<in>visited - set (?p # rest). \<forall>q. adjacent x q \<and> free a0 q \<longrightarrow> q \<in> visited"
    by (simp_all add: fire_inv_def)
  have ind: "indices a = indices a0" "indices a' = indices a0"
    using sh by (simp_all add: a'_def indices_def)
  from sub comp have pc: "free_connected a0 st ?p" by auto
  then have pfree: "free a0 ?p" by (simp add: free_connected_free)
  then have pin: "?p \<in> indices a0" by (rule free_indices)
  have val': "item a' x = (if x = ?p then cur else item a x)" if "x \<in> indices a0" for x
    using that ws pin ind by (simp add: a'_def item_setitem)
  from dist sub have "distinct rest" "set rest \<subseteq> visited" by simp_all
  from fold_visit_sets [OF this, of ns a'] obtain N where N: "N \<subseteq> set ns" "N \<inter> visited = {}"
      "\<forall>q\<in>N. q \<in> indices a' \<and> item a' q = 0"
      "\<forall>x\<in>set ns. x \<in> indices a' \<and> item a' x = 0 \<longrightarrow> x \<in> visited \<union> N"
      "set (fst (fold (visit a') ns (rest, visited))) = set rest \<union> N"
      "snd (fold (visit a') ns (rest, visited)) = visited \<union> N"
      "distinct (fst (fold (visit a') ns (rest, visited)))"
    by blast
  have popped: "(visited \<union> N) - (set rest \<union> N) = insert ?p (visited - set (?p # rest))"
    using dist sub N(2) by auto
  have Nfree: "free a0 q \<and> adjacent ?p q" if "q \<in> N" for q
  proof -
    from that N(1) have adj: "adjacent ?p q" by (auto simp: ns_def adjacent_iff simp del: set_simps)
    then have "q \<noteq> ?p" by (auto simp: adjacent_def)
    from that N(3) ind have q: "q \<in> indices a0" "item a' q = 0" by auto
    with \<open>q \<noteq> ?p\<close> have "item a q = 0" by (simp add: val')
    with val q(1) cur have "item a0 q = 0" by (auto split: if_splits)
    with q(1) sh adj show ?thesis by (simp add: free_def inbounds_indices)
  qed
  have Ncomp: "N \<subseteq> {q. free_connected a0 st q}"
    using Nfree pc free_connected_step by blast
  have val2: "\<forall>x\<in>indices a0. item a' x = (if x \<in> insert ?p (visited - set (?p # rest)) then cur else item a0 x)"
  proof
    fix x assume x: "x \<in> indices a0"
    with val have "item a x = (if x \<in> visited - set (?p # rest) then cur else item a0 x)" by blast
    with x show "item a' x = (if x \<in> insert ?p (visited - set (?p # rest)) then cur else item a0 x)"
      by (simp add: val')
  qed
  have clo2: "\<forall>x\<in>insert ?p (visited - set (?p # rest)). \<forall>q. adjacent x q \<and> free a0 q
      \<longrightarrow> q \<in> snd (fold (visit a') ns (rest, visited))"
  proof (intro ballI allI impI)
    fix x q assume x: "x \<in> insert ?p (visited - set (?p # rest))" and q: "adjacent x q \<and> free a0 q"
    have "q \<in> visited \<union> N"
    proof (cases "x = ?p")
      case False
      with x have "x \<in> visited - set (?p # rest)" by simp
      with clo q show ?thesis by blast
    next
      case True
      with q have qn: "q \<in> set ns" by (simp add: ns_def adjacent_iff del: set_simps)
      from q True have "q \<noteq> ?p" by (auto simp: adjacent_def)
      from q have qi: "q \<in> indices a0" and q0: "item a0 q = 0"
        by (simp_all add: free_indices) (simp add: free_def)
      show ?thesis
      proof (cases "item a' q = 0")
        case True
        with N(4) qn qi ind(2) show ?thesis by blast
      next
        case False
        with \<open>q \<noteq> ?p\<close> qi have nz: "item a q \<noteq> 0" by (simp add: val')
        from val qi have "item a q = (if q \<in> visited - set (?p # rest) then cur else item a0 q)"
          by blast
        with nz q0 have "q \<in> visited - set (?p # rest)" by (simp split: if_splits)
        then show ?thesis by simp
      qed
    qed
    then show "q \<in> snd (fold (visit a') ns (rest, visited))" by (simp only: N(6))
  qed
  have ws': "well_shaped a'" "shape0 a' = shape0 a0" "shape1 a' = shape1 a0"
    using ws sh by (simp_all add: a'_def)
  have "set (fst (fold (visit a') ns (rest, visited))) \<subseteq> snd (fold (visit a') ns (rest, visited))"
    using N(5,6) \<open>set rest \<subseteq> visited\<close> by auto
  moreover have "snd (fold (visit a') ns (rest, visited)) \<subseteq> {q. free_connected a0 st q}"
    using N(6) comp Ncomp by auto
  moreover have "st \<in> snd (fold (visit a') ns (rest, visited))"
    using N(6) st by simp
  moreover have "snd (fold (visit a') ns (rest, visited)) - set (fst (fold (visit a') ns (rest, visited)))
      = insert ?p (visited - set (?p # rest))"
    using popped by (simp only: N(5,6))
  ultimately show ?thesis
    unfolding fire_inv_def using ws' N(7) val2 clo2 by (simp only: simp_thms)
qed

lemma fire_inv_final:
  assumes inv: "fire_inv a0 st cur ([], visited) a" and p: "p \<in> indices a0"
  shows "item a p = (if free_connected a0 st p then cur else item a0 p)"
proof -
  from inv have comp: "visited \<subseteq> {q. free_connected a0 st q}" and st: "st \<in> visited"
    and val: "\<forall>x\<in>indices a0. item a x = (if x \<in> visited then cur else item a0 x)"
    and clo: "\<forall>x\<in>visited. \<forall>q. adjacent x q \<and> free a0 q \<longrightarrow> q \<in> visited"
    by (simp_all add: fire_inv_def)
  have "q \<in> visited" if "(free_step a0)\<^sup>*\<^sup>* st q" for q
    using that
  proof (induction rule: rtranclp_induct)
    case base
    show ?case by (rule st)
  next
    case (step y z)
    from step.hyps(2) have "adjacent y z \<and> free a0 z" by (simp add: free_step_def)
    with clo step.IH show ?case by blast
  qed
  then have "free_connected a0 st q \<Longrightarrow> q \<in> visited" for q by (simp add: free_connected_def)
  with comp have "visited = {q. free_connected a0 st q}" by auto
  with val p show ?thesis by simp
qed

lemma grassfire_spec:
  assumes "fire_inv a0 st cur hv a" and "cur \<noteq> 0"
  shows "well_shaped (grassfire cur hv a) \<and> shape0 (grassfire cur hv a) = shape0 a0
       \<and> shape1 (grassfire cur hv a) = shape1 a0
       \<and> (\<forall>p\<in>indices a0. item (grassfire cur hv a) p = (if free_connected a0 st p then cur else item a0 p))"
  using assms
proof (induction cur hv a rule: grassfire.induct)
  case (1 cur heap visited a)
  show ?case
  proof (cases heap)
    case Nil
    then have eq: "grassfire cur (heap, visited) a = a"
      by (subst grassfire.simps) simp
    from "1.prems"(1) Nil have inv: "fire_inv a0 st cur ([], visited) a" by simp
    then have "well_shaped a" "shape0 a = shape0 a0" "shape1 a = shape1 a0"
      by (simp_all add: fire_inv_def)
    with fire_inv_final [OF inv] show ?thesis by (simp only: eq simp_thms) blast
  next
    case (Cons p rest)
    obtain i j where p: "p = (i, j)" by (cases p)
    let ?a' = "setitem a (i, j) cur"
    let ?hv = "fold (visit ?a') [(i + 1, j), (i - 1, j), (i, j + 1), (i, j - 1)] (rest, visited)"
    have eq: "grassfire cur (heap, visited) a = grassfire cur ?hv ?a'"
      by (subst grassfire.simps) (simp add: Cons p Let_def)
    from "1.prems"(1) have "fire_inv a0 st cur ((i, j) # rest, visited) a"
      by (simp only: Cons p)
    then have "fire_inv a0 st cur ?hv ?a'"
      using "1.prems"(2) by (rule fire_inv_step)
    then show ?thesis
      unfolding eq using "1.prems"(2) by (rule "1.IH" [OF Cons p [symmetric] refl])
  qed
qed

section \<open>The labelling loop\<close>

lemma argwhere_first:
  assumes ws: "well_shaped a" and pos: "count_nonzero P a > 0"
  shows "hd (argwhere P a) \<in> indices a" and "P (item a (hd (argwhere P a)))"
    and "\<forall>p\<in>indices a. P (item a p) \<longrightarrow> offset a (hd (argwhere P a)) \<le> offset a p"
proof -
  let ?ks = "filter (\<lambda>k. P (flat a ! k)) [0..<length (flat a)]"
  from pos have "filter P (flat a) \<noteq> []" by (auto simp: count_nonzero_def)
  then obtain x where "x \<in> set (flat a)" "P x" by (auto simp: filter_empty_conv)
  then obtain k where "k < length (flat a)" "P (flat a ! k)" by (auto simp: in_set_conv_nth)
  then have ne: "?ks \<noteq> []" by (auto simp: filter_empty_conv)
  then have hd: "hd (argwhere P a) = unravel a (hd ?ks)" by (simp add: argwhere_def hd_map)
  from ne have "hd ?ks \<in> set ?ks" by (rule hd_in_set)
  then have k0: "hd ?ks < length (flat a)" "P (flat a ! hd ?ks)" by simp_all
  from offset_unravel [OF ws k0(1)] k0(2)
  show "hd (argwhere P a) \<in> indices a" "P (item a (hd (argwhere P a)))"
    by (simp_all add: hd item_def)
  have "sorted ?ks" by (simp add: sorted_wrt_filter)
  then have least: "\<forall>k\<in>set ?ks. hd ?ks \<le> k" using ne by (cases ?ks) auto
  show "\<forall>p\<in>indices a. P (item a p) \<longrightarrow> offset a (hd (argwhere P a)) \<le> offset a p"
  proof (intro ballI impI)
    fix p assume p: "p \<in> indices a" "P (item a p)"
    with offset_less [OF ws p(1)] have "offset a p \<in> set ?ks" by (simp add: item_def)
    with least have "hd ?ks \<le> offset a p" by blast
    then show "offset a (hd (argwhere P a)) \<le> offset a p"
      by (simp add: hd offset_unravel(2) [OF ws k0(1)])
  qed
qed

definition lab_inv :: "int ndarray \<Rightarrow> int \<Rightarrow> int ndarray \<Rightarrow> bool" where
  "lab_inv a0 cur a =
     (well_shaped a \<and> shape0 a = shape0 a0 \<and> shape1 a = shape1 a0 \<and> 1 \<le> cur
      \<and> (\<forall>p\<in>indices a0. item a0 p \<noteq> 0 \<longrightarrow> item a p = - 1)
      \<and> (\<forall>p\<in>indices a0. item a0 p = 0 \<longrightarrow> 0 \<le> item a p \<and> item a p < cur)
      \<and> (\<forall>p q. free_connected a0 p q \<and> item a p \<noteq> 0 \<longrightarrow> item a q = item a p)
      \<and> (\<forall>p q. free a0 p \<and> free a0 q \<and> item a p \<noteq> 0 \<and> item a p = item a q \<longrightarrow> free_connected a0 p q)
      \<and> (\<forall>k. 1 \<le> k \<and> k < cur \<longrightarrow>
            (\<exists>p\<in>indices a0. item a p = k
               \<and> (\<forall>q\<in>indices a0. item a q = 0 \<or> k < item a q \<longrightarrow> offset a0 p < offset a0 q))))"

lemma free_iff: "free a p \<longleftrightarrow> p \<in> indices a \<and> item a p = 0"
  by (simp add: free_def inbounds_indices)

lemma lab_inv_free:
  assumes "lab_inv a0 cur a"
  shows "free a p \<Longrightarrow> free a0 p"
proof -
  assume f: "free a p"
  with assms have p: "p \<in> indices a0" "item a p = 0"
    by (simp_all add: free_iff lab_inv_def indices_def)
  with assms have "item a0 p \<noteq> 0 \<Longrightarrow> item a p = - 1" by (simp add: lab_inv_def)
  with p show "free a0 p" by (auto simp: free_iff)
qed

lemma lab_inv_free_connected:
  assumes inv: "lab_inv a0 cur a" and st: "free a st"
  shows "free_connected a st q \<longleftrightarrow> free_connected a0 st q"
proof
  assume c: "free_connected a st q"
  have "free_step a x y \<Longrightarrow> free_step a0 x y" for x y
    using lab_inv_free [OF inv] by (simp add: free_step_def)
  then have "(free_step a)\<^sup>*\<^sup>* st q \<Longrightarrow> (free_step a0)\<^sup>*\<^sup>* st q"
    using mono_rtranclp [of "free_step a" "free_step a0" st q] by blast
  with c lab_inv_free [OF inv] show "free_connected a0 st q" by (simp add: free_connected_def)
next
  assume c: "free_connected a0 st q"
  from inv have ind: "indices a = indices a0" by (simp add: lab_inv_def indices_def)
  from inv have uni: "free_connected a0 x y \<Longrightarrow> item a x \<noteq> 0 \<Longrightarrow> item a y = item a x" for x y
    unfolding lab_inv_def by blast
  from st have st0: "free a0 st" by (rule lab_inv_free [OF inv])
  from c have "(free_step a0)\<^sup>*\<^sup>* st q" by (simp add: free_connected_def)
  then have "free_connected a0 st q \<and> free_connected a st q"
  proof (induction rule: rtranclp_induct)
    case base
    from st st0 show ?case by (simp add: free_connected_refl)
  next
    case (step y z)
    from step.hyps(2) have z: "free a0 z" "adjacent y z" by (simp_all add: free_step_def)
    with step.IH have cz: "free_connected a0 st z" using free_connected_step by blast
    then have "free_connected a0 z st" by (rule free_connected_sym)
    from uni [OF this] st have "item a z = 0" by (auto simp: free_iff)
    with z(1) ind have "free a z" by (simp add: free_iff)
    with step.IH z(2) have "free_connected a st z" using free_connected_step by blast
    with cz show ?case by simp
  qed
  then show "free_connected a st q" by simp
qed

lemma lab_invD:
  assumes "lab_inv a0 cur a"
  shows "well_shaped a" and "shape0 a = shape0 a0" and "shape1 a = shape1 a0" and "1 \<le> cur"
    and "\<forall>p\<in>indices a0. item a0 p \<noteq> 0 \<longrightarrow> item a p = - 1"
    and "\<forall>p\<in>indices a0. item a0 p = 0 \<longrightarrow> 0 \<le> item a p \<and> item a p < cur"
    and "\<forall>p q. free_connected a0 p q \<and> item a p \<noteq> 0 \<longrightarrow> item a q = item a p"
    and "\<forall>p q. free a0 p \<and> free a0 q \<and> item a p \<noteq> 0 \<and> item a p = item a q \<longrightarrow> free_connected a0 p q"
    and "\<forall>k. 1 \<le> k \<and> k < cur \<longrightarrow>
            (\<exists>p\<in>indices a0. item a p = k
               \<and> (\<forall>q\<in>indices a0. item a q = 0 \<or> k < item a q \<longrightarrow> offset a0 p < offset a0 q))"
proof -
  note inv = assms [unfolded lab_inv_def]
  show "well_shaped a" using inv by (elim conjE)
  show "shape0 a = shape0 a0" using inv by (elim conjE)
  show "shape1 a = shape1 a0" using inv by (elim conjE)
  show "1 \<le> cur" using inv by (elim conjE)
  show "\<forall>p\<in>indices a0. item a0 p \<noteq> 0 \<longrightarrow> item a p = - 1" using inv by (elim conjE)
  show "\<forall>p\<in>indices a0. item a0 p = 0 \<longrightarrow> 0 \<le> item a p \<and> item a p < cur" using inv by (elim conjE)
  show "\<forall>p q. free_connected a0 p q \<and> item a p \<noteq> 0 \<longrightarrow> item a q = item a p" using inv by (elim conjE)
  show "\<forall>p q. free a0 p \<and> free a0 q \<and> item a p \<noteq> 0 \<and> item a p = item a q \<longrightarrow> free_connected a0 p q"
    using inv by (elim conjE)
  show "\<forall>k. 1 \<le> k \<and> k < cur \<longrightarrow>
            (\<exists>p\<in>indices a0. item a p = k
               \<and> (\<forall>q\<in>indices a0. item a q = 0 \<or> k < item a q \<longrightarrow> offset a0 p < offset a0 q))"
    using inv by (elim conjE)
qed

lemma lab_invI:
  assumes "well_shaped a" and "shape0 a = shape0 a0" and "shape1 a = shape1 a0" and "1 \<le> cur"
    and "\<forall>p\<in>indices a0. item a0 p \<noteq> 0 \<longrightarrow> item a p = - 1"
    and "\<forall>p\<in>indices a0. item a0 p = 0 \<longrightarrow> 0 \<le> item a p \<and> item a p < cur"
    and "\<forall>p q. free_connected a0 p q \<and> item a p \<noteq> 0 \<longrightarrow> item a q = item a p"
    and "\<forall>p q. free a0 p \<and> free a0 q \<and> item a p \<noteq> 0 \<and> item a p = item a q \<longrightarrow> free_connected a0 p q"
    and "\<forall>k. 1 \<le> k \<and> k < cur \<longrightarrow>
            (\<exists>p\<in>indices a0. item a p = k
               \<and> (\<forall>q\<in>indices a0. item a q = 0 \<or> k < item a q \<longrightarrow> offset a0 p < offset a0 q))"
  shows "lab_inv a0 cur a"
  unfolding lab_inv_def using assms by (intro conjI)

lemma lab_inv_step:
  assumes inv: "lab_inv a0 cur a" and pos: "count_nonzero (\<lambda>x. x = 0) a > 0"
  defines "st \<equiv> hd (argwhere (\<lambda>x. x = 0) a)"
  defines "a' \<equiv> grassfire cur (heappush [] st, insert st {}) a"
  shows "lab_inv a0 (cur + 1) a'"
    and "count_nonzero (\<lambda>x. x = 0) a' < count_nonzero (\<lambda>x. x = 0) a"
proof -
  note ws = lab_invD(1) [OF inv] and sh = lab_invD(2,3) [OF inv] and cur = lab_invD(4) [OF inv]
    and occ0 = lab_invD(5) [OF inv] and rng0 = lab_invD(6) [OF inv] and uni0 = lab_invD(7) [OF inv]
    and sep0 = lab_invD(8) [OF inv] and seed0 = lab_invD(9) [OF inv]
  have occ: "item a p = - 1" if "p \<in> indices a0" "item a0 p \<noteq> 0" for p
    using occ0 that by blast
  have rng: "0 \<le> item a p \<and> item a p < cur" if "p \<in> indices a0" "item a0 p = 0" for p
    using rng0 that by blast
  have uni: "item a q = item a p" if "free_connected a0 p q" "item a p \<noteq> 0" for p q
    using uni0 that by blast
  have sep: "free_connected a0 p q" if "free a0 p" "free a0 q" "item a p \<noteq> 0" "item a p = item a q" for p q
    using sep0 that by blast
  have seed: "\<exists>p\<in>indices a0. item a p = k
               \<and> (\<forall>q\<in>indices a0. item a q = 0 \<or> k < item a q \<longrightarrow> offset a0 p < offset a0 q)"
    if "1 \<le> k" "k < cur" for k
    using seed0 that by blast
  have ind: "indices a = indices a0" using sh by (simp add: indices_def)
  have off: "offset a p = offset a0 p" for p using sh by (simp add: offset_def)
  from argwhere_first [OF ws pos]
  have st: "st \<in> indices a0" "item a st = 0"
    and first: "\<And>p. p \<in> indices a0 \<Longrightarrow> item a p = 0 \<Longrightarrow> offset a0 st \<le> offset a0 p"
    by (simp_all add: st_def ind off)
  then have fst: "free a st" by (simp add: free_iff ind)
  then have fst0: "free a0 st" by (rule lab_inv_free [OF inv])
  have "fire_inv a st cur (heappush [] st, insert st {}) a"
    using ws fst by (simp add: fire_inv_def heappush_def free_connected_refl)
  moreover from cur have "cur \<noteq> 0" by simp
  ultimately have G: "well_shaped a'" "shape0 a' = shape0 a" "shape1 a' = shape1 a"
    "\<And>p. p \<in> indices a \<Longrightarrow> item a' p = (if free_connected a st p then cur else item a p)"
    using grassfire_spec [of a st cur "(heappush [] st, insert st {})" a]
    unfolding a'_def by blast+
  have val: "item a' p = (if free_connected a0 st p then cur else item a p)" if "p \<in> indices a0" for p
    using G(4) [of p] that by (simp add: ind lab_inv_free_connected [OF inv fst])
  have comp0: "item a p = 0" if "free_connected a0 st p" for p
    using that lab_inv_free_connected [OF inv fst, of p] by (simp add: free_connected_def free_iff)
  have compi: "p \<in> indices a0" if "free_connected a0 st p" for p
    using that by (simp add: free_connected_def free_iff)
  have stc: "free_connected a0 st st" using fst0 by (rule free_connected_refl)
  have c1: "item a' p = - 1" if "p \<in> indices a0" "item a0 p \<noteq> 0" for p
  proof -
    from that have "\<not> free_connected a0 st p" by (auto simp: free_connected_def free_iff)
    with that show ?thesis by (simp add: val occ)
  qed
  have c2: "0 \<le> item a' p \<and> item a' p < cur + 1" if "p \<in> indices a0" "item a0 p = 0" for p
    using rng [OF that] cur by (simp add: val that(1))
  have c3: "item a' q = item a' p" if "free_connected a0 p q" "item a' p \<noteq> 0" for p q
  proof -
    from that(1) have pq: "p \<in> indices a0" "q \<in> indices a0" by (simp_all add: free_connected_def free_iff)
    show ?thesis
    proof (cases "free_connected a0 st p")
      case True
      from True that(1) have "free_connected a0 st q" by (rule free_connected_trans)
      with True pq show ?thesis by (simp add: val)
    next
      case False
      with that pq have nz: "item a p \<noteq> 0" by (simp add: val)
      have "\<not> free_connected a0 st q"
        using False that(1) free_connected_sym free_connected_trans by blast
      with False pq uni [OF that(1) nz] show ?thesis by (simp add: val)
    qed
  qed
  have c4: "free_connected a0 p q" if "free a0 p" "free a0 q" "item a' p \<noteq> 0" "item a' p = item a' q" for p q
  proof -
    from that have pq: "p \<in> indices a0" "q \<in> indices a0" "item a0 p = 0" "item a0 q = 0"
      by (simp_all add: free_iff)
    show ?thesis
    proof (cases "free_connected a0 st p")
      case True
      with that(4) pq have eq: "item a' q = cur" by (simp add: val)
      have "free_connected a0 st q"
      proof (rule ccontr)
        assume "\<not> free_connected a0 st q"
        with eq pq have "item a q = cur" by (simp add: val)
        with rng [OF pq(2) pq(4)] show False by simp
      qed
      with True show ?thesis using free_connected_sym free_connected_trans by blast
    next
      case False
      with that pq have p: "item a p \<noteq> 0" "item a' p = item a p" by (simp_all add: val)
      have "\<not> free_connected a0 st q"
      proof
        assume "free_connected a0 st q"
        with pq have "item a' q = cur" by (simp add: val)
        with that(4) p(2) rng [OF pq(1) pq(3)] show False by simp
      qed
      with that(4) p pq have "item a p = item a q" by (simp add: val)
      with that(1,2) p(1) show ?thesis by (rule sep)
    qed
  qed
  have c5: "\<exists>p\<in>indices a0. item a' p = k
               \<and> (\<forall>q\<in>indices a0. item a' q = 0 \<or> k < item a' q \<longrightarrow> offset a0 p < offset a0 q)"
    if k: "1 \<le> k" "k < cur + 1" for k
  proof (cases "k < cur")
    case True
    from seed [OF k(1) True] obtain p where p: "p \<in> indices a0" "item a p = k"
      "\<And>q. q \<in> indices a0 \<Longrightarrow> item a q = 0 \<or> k < item a q \<Longrightarrow> offset a0 p < offset a0 q"
      by blast
    from p(2) k(1) comp0 [of p] have "\<not> free_connected a0 st p" by auto
    with p have pk: "item a' p = k" by (simp add: val)
    have "offset a0 p < offset a0 q" if q: "q \<in> indices a0" "item a' q = 0 \<or> k < item a' q" for q
    proof (cases "free_connected a0 st q")
      case True
      then have "item a q = 0" by (rule comp0)
      with p(3) q(1) show ?thesis by blast
    next
      case False
      with q have "item a q = 0 \<or> k < item a q" by (simp add: val)
      with p(3) q(1) show ?thesis by blast
    qed
    with p(1) pk show ?thesis by blast
  next
    case False
    with k have kc: "k = cur" by simp
    have sk: "item a' st = k" using st(1) stc by (simp add: val kc)
    have "offset a0 st < offset a0 q" if q: "q \<in> indices a0" "item a' q = 0 \<or> k < item a' q" for q
    proof -
      from q(2) cur have nc: "\<not> free_connected a0 st q" by (auto simp: val q(1) kc)
      with q have q': "item a q = 0 \<or> cur < item a q" by (simp add: val kc)
      have "item a q = 0"
      proof (cases "item a0 q = 0")
        case True
        with rng [OF q(1) True] q' show ?thesis by auto
      next
        case False
        with occ [OF q(1) False] q' cur show ?thesis by auto
      qed
      from first [OF q(1) this] have le: "offset a0 st \<le> offset a0 q" .
      from nc stc have "q \<noteq> st" by auto
      with st(1) q(1) have "offset a0 st \<noteq> offset a0 q" using offset_inj by blast
      with le show ?thesis by simp
    qed
    with st(1) sk show ?thesis by blast
  qed
  show "lab_inv a0 (cur + 1) a'"
  proof (rule lab_invI)
    show "well_shaped a'" by (rule G(1))
    show "shape0 a' = shape0 a0" "shape1 a' = shape1 a0" using G(2,3) sh by simp_all
    show "1 \<le> cur + 1" using cur by simp
    show "\<forall>p\<in>indices a0. item a0 p \<noteq> 0 \<longrightarrow> item a' p = - 1" using c1 by blast
    show "\<forall>p\<in>indices a0. item a0 p = 0 \<longrightarrow> 0 \<le> item a' p \<and> item a' p < cur + 1" using c2 by blast
    show "\<forall>p q. free_connected a0 p q \<and> item a' p \<noteq> 0 \<longrightarrow> item a' q = item a' p" using c3 by blast
    show "\<forall>p q. free a0 p \<and> free a0 q \<and> item a' p \<noteq> 0 \<and> item a' p = item a' q \<longrightarrow> free_connected a0 p q"
      using c4 by blast
    show "\<forall>k. 1 \<le> k \<and> k < cur + 1 \<longrightarrow>
            (\<exists>p\<in>indices a0. item a' p = k
               \<and> (\<forall>q\<in>indices a0. item a' q = 0 \<or> k < item a' q \<longrightarrow> offset a0 p < offset a0 q))"
      using c5 by blast
  qed
  have ws': "well_shaped a'" by (rule G(1))
  have ind': "indices a' = indices a0" using G(2,3) sh by (simp add: indices_def)
  have "{p \<in> indices a0. item a' p = 0} \<subseteq> {p \<in> indices a0. item a p = 0}"
    using cur by (auto simp: val split: if_splits)
  moreover have "st \<in> {p \<in> indices a0. item a p = 0}" "st \<notin> {p \<in> indices a0. item a' p = 0}"
    using st stc cur by (simp_all add: val)
  ultimately have "{p \<in> indices a0. item a' p = 0} \<subset> {p \<in> indices a0. item a p = 0}"
    by blast
  moreover have "finite {p \<in> indices a0. item a p = 0}" by (simp add: finite_indices)
  ultimately have "card {p \<in> indices a0. item a' p = 0} < card {p \<in> indices a0. item a p = 0}"
    by (rule psubset_card_mono [rotated])
  then show "count_nonzero (\<lambda>x. x = 0) a' < count_nonzero (\<lambda>x. x = 0) a"
    by (simp add: count_nonzero_card [OF ws] count_nonzero_card [OF ws'] ind ind')
qed

lemma label_regions_spec:
  assumes "lab_inv a0 cur a"
  shows "\<exists>cur' a'. label_regions cur a = Some (cur', a') \<and> lab_inv a0 cur' a'
           \<and> count_nonzero (\<lambda>x. x = 0) a' = 0"
  using assms
proof (induction "count_nonzero (\<lambda>x. x = (0::int)) a" arbitrary: cur a rule: less_induct)
  case less
  show ?case
  proof (cases "count_nonzero (\<lambda>x. x = 0) a > 0")
    case True
    let ?a' = "grassfire cur (heappush [] (hd (argwhere (\<lambda>x. x = 0) a)),
                 insert (hd (argwhere (\<lambda>x. x = 0) a)) {}) a"
    have eq: "label_regions cur a = label_regions (cur + 1) ?a'"
      by (subst label_regions.simps) (simp add: True Let_def)
    from lab_inv_step [OF less.prems True]
    have "lab_inv a0 (cur + 1) ?a'" and "count_nonzero (\<lambda>x. x = 0) ?a' < count_nonzero (\<lambda>x. x = 0) a"
      by simp_all
    from less.hyps [OF this(2) this(1)] show ?thesis by (simp only: eq)
  next
    case False
    then have "label_regions cur a = Some (cur, a)"
      by (subst label_regions.simps) simp
    with False less.prems show ?thesis by simp
  qed
qed

lemma lab_inv_init:
  assumes "well_shaped occ"
  shows "lab_inv occ 1 (assign_where (\<lambda>x. x \<noteq> 0) (- 1) occ)"
proof (rule lab_invI)
  let ?a = "assign_where (\<lambda>x. x \<noteq> 0) (- 1) occ"
  have val: "item ?a p = (if item occ p \<noteq> 0 then - 1 else item occ p)" if "p \<in> indices occ" for p
    using assms that by (rule item_assign_where)
  have fr: "item ?a p = 0" if "free occ p" for p
    using that by (simp add: free_iff val)
  show "well_shaped ?a" using assms by simp
  show "shape0 ?a = shape0 occ" "shape1 ?a = shape1 occ" by simp_all
  show "(1::int) \<le> 1" by simp
  show "\<forall>p\<in>indices occ. item occ p \<noteq> 0 \<longrightarrow> item ?a p = - 1" by (simp add: val)
  show "\<forall>p\<in>indices occ. item occ p = 0 \<longrightarrow> 0 \<le> item ?a p \<and> item ?a p < 1" by (simp add: val)
  show "\<forall>p q. free_connected occ p q \<and> item ?a p \<noteq> 0 \<longrightarrow> item ?a q = item ?a p"
    using fr by (auto simp: free_connected_def)
  show "\<forall>p q. free occ p \<and> free occ q \<and> item ?a p \<noteq> 0 \<and> item ?a p = item ?a q \<longrightarrow> free_connected occ p q"
    using fr by auto
  show "\<forall>k. 1 \<le> k \<and> k < 1 \<longrightarrow>
            (\<exists>p\<in>indices occ. item ?a p = k
               \<and> (\<forall>q\<in>indices occ. item ?a q = 0 \<or> k < item ?a q \<longrightarrow> offset occ p < offset occ q))"
    by (intro allI impI) linarith
qed

lemma np_all_count: "np_all (\<lambda>x. x \<noteq> v) a \<longleftrightarrow> count_nonzero (\<lambda>x. x = v) a = 0"
  by (simp add: np_all_def count_nonzero_def list_all_iff filter_empty_conv)

lemma extractAllRegions_spec:
  assumes "well_shaped occ"
  shows "\<exists>cur lab. extractAllRegions occ = Some (Inr lab) \<and> lab_inv occ cur lab
           \<and> count_nonzero (\<lambda>x. x = 0) lab = 0"
proof -
  from label_regions_spec [OF lab_inv_init [OF assms]]
  obtain cur lab where r: "label_regions 1 (assign_where (\<lambda>x. x \<noteq> 0) (- 1) occ) = Some (cur, lab)"
    "lab_inv occ cur lab" "count_nonzero (\<lambda>x. x = 0) lab = 0"
    by blast
  then have "extractAllRegions occ = Some (Inr lab)"
    by (simp add: extractAllRegions_def np_all_count)
  with r show ?thesis by blast
qed

lemma lab_inv_values:
  assumes inv: "lab_inv occ cur lab" and nz: "count_nonzero (\<lambda>x. x = 0) lab = 0"
    and p: "p \<in> indices occ"
  shows "item occ p \<noteq> 0 \<Longrightarrow> item lab p = - 1"
    and "item occ p = 0 \<Longrightarrow> 1 \<le> item lab p \<and> item lab p < cur"
proof -
  note ws = lab_invD(1) [OF inv] and sh = lab_invD(2,3) [OF inv]
  have ind: "indices lab = indices occ" using sh by (simp add: indices_def)
  from nz have "card {p \<in> indices lab. item lab p = 0} = 0"
    by (simp add: count_nonzero_card [OF ws])
  then have "{p \<in> indices lab. item lab p = 0} = {}" by (simp add: finite_indices)
  with p ind have nz': "item lab p \<noteq> 0" by blast
  show "item occ p \<noteq> 0 \<Longrightarrow> item lab p = - 1" using lab_invD(5) [OF inv] p by blast
  assume "item occ p = 0"
  with lab_invD(6) [OF inv] p have "0 \<le> item lab p \<and> item lab p < cur" by blast
  with nz' show "1 \<le> item lab p \<and> item lab p < cur" by simp
qed

lemma count_nonzero_pos:
  assumes "well_shaped a" and "p \<in> indices a" and "P (item a p)"
  shows "count_nonzero P a > 0"
proof -
  from offset_less [OF assms(1,2)] assms(3) have "\<exists>x\<in>set (flat a). P x"
    by (auto simp: item_def)
  then have "filter P (flat a) \<noteq> []" by (simp add: filter_empty_conv)
  then show ?thesis by (simp add: count_nonzero_def)
qed

lemma offset_cong: "shape1 a = shape1 b \<Longrightarrow> offset a p = offset b p"
  by (simp add: offset_def)

lemma scene_labels: "extractAllRegions scene_grid = Some (Inr scene_labelled)"
  by code_simp

lemma extractAllRegions_Some:
  assumes "extractAllRegions occ = Some (Inr lab)"
  shows "\<exists>cur. label_regions 1 (assign_where (\<lambda>x. x \<noteq> 0) (- 1) occ) = Some (cur, lab)
           \<and> np_all (\<lambda>x. x \<noteq> 0) lab"
  using assms by (auto simp: extractAllRegions_def split: option.splits if_splits)

lemma extractAllRegions_coverage_aux:
  assumes "well_shaped occupacyGrid"
  shows "\<exists>lab. extractAllRegions occupacyGrid = Some (Inr lab)
           \<and> shape0 lab = shape0 occupacyGrid \<and> shape1 lab = shape1 occupacyGrid \<and> well_shaped lab
           \<and> (\<forall>x\<in>set (flat lab). x = - 1 \<or> 1 \<le> x)
           \<and> ((\<forall>x\<in>set (flat occupacyGrid). x \<noteq> 0) \<longrightarrow> (\<forall>x\<in>set (flat lab). x = - 1))"
proof -
  from extractAllRegions_spec [OF assms] obtain cur lab where
    r: "extractAllRegions occupacyGrid = Some (Inr lab)" and inv: "lab_inv occupacyGrid cur lab"
    and nz: "count_nonzero (\<lambda>x. x = 0) lab = 0"
    by blast
  note ws = lab_invD(1) [OF inv] and sh = lab_invD(2,3) [OF inv]
  have ind: "indices lab = indices occupacyGrid" using sh by (simp add: indices_def)
  have v: "item lab p = - 1 \<or> 1 \<le> item lab p" if "p \<in> indices occupacyGrid" for p
    using lab_inv_values [OF inv nz that] by (cases "item occupacyGrid p = 0") simp_all
  have "\<forall>x\<in>set (flat lab). x = - 1 \<or> 1 \<le> x"
    using v by (auto simp: set_flat [OF ws] ind)
  moreover have "\<forall>x\<in>set (flat lab). x = - 1" if "\<forall>x\<in>set (flat occupacyGrid). x \<noteq> 0"
  proof -
    from that have "item occupacyGrid p \<noteq> 0" if "p \<in> indices occupacyGrid" for p
      using that by (simp add: set_flat [OF assms])
    then show ?thesis
      using lab_inv_values(1) [OF inv nz] by (auto simp: set_flat [OF ws] ind)
  qed
  ultimately show ?thesis using r sh ws by blast
qed

lemma extractAllRegions_numbering_aux:
  assumes "well_shaped occupacyGrid"
  shows "\<exists>lab R. extractAllRegions occupacyGrid = Some (Inr lab) \<and> 0 \<le> R
           \<and> {x \<in> set (flat lab). 0 < x} = {1..R}
           \<and> (\<forall>k k'. 1 \<le> k \<and> k < k' \<and> k' \<le> R \<longrightarrow> seed_offset lab k < seed_offset lab k')"
proof -
  from extractAllRegions_spec [OF assms] obtain cur lab where
    r: "extractAllRegions occupacyGrid = Some (Inr lab)" and inv: "lab_inv occupacyGrid cur lab"
    and nz: "count_nonzero (\<lambda>x. x = 0) lab = 0"
    by blast
  note ws = lab_invD(1) [OF inv] and sh = lab_invD(2,3) [OF inv] and cur = lab_invD(4) [OF inv]
  have ind: "indices lab = indices occupacyGrid" using sh by (simp add: indices_def)
  have off: "offset occupacyGrid p = offset lab p" for p using sh by (simp add: offset_def)
  have seed: "\<exists>p\<in>indices lab. item lab p = k
               \<and> (\<forall>q\<in>indices lab. k < item lab q \<longrightarrow> offset lab p < offset lab q)"
    if "1 \<le> k" "k < cur" for k
    using lab_invD(9) [OF inv] that unfolding ind off by blast
  have vals: "item lab p = - 1 \<or> (1 \<le> item lab p \<and> item lab p < cur)" if "p \<in> indices lab" for p
    using lab_inv_values [OF inv nz, of p] that ind by (cases "item occupacyGrid p = 0") simp_all
  have "{x \<in> set (flat lab). 0 < x} = {1..cur - 1}"
  proof (intro set_eqI iffI)
    fix x assume "x \<in> {x \<in> set (flat lab). 0 < x}"
    then obtain p where "p \<in> indices lab" "x = item lab p" "0 < x"
      by (auto simp: set_flat [OF ws])
    with vals [of p] show "x \<in> {1..cur - 1}" by auto
  next
    fix x assume "x \<in> {1..cur - 1}"
    then have x: "1 \<le> x" "x < cur" by simp_all
    from seed [OF this] obtain p where "p \<in> indices lab" "item lab p = x" by blast
    with x show "x \<in> {x \<in> set (flat lab). 0 < x}" by (auto simp: set_flat [OF ws])
  qed
  moreover have "seed_offset lab k < seed_offset lab k'" if k: "1 \<le> k" "k < k'" "k' \<le> cur - 1" for k k'
  proof -
    from k have "1 \<le> k" "k < cur" by simp_all
    from seed [OF this] obtain p where p: "p \<in> indices lab" "item lab p = k"
      "\<And>q. q \<in> indices lab \<Longrightarrow> k < item lab q \<Longrightarrow> offset lab p < offset lab q"
      by blast
    from k have "1 \<le> k'" "k' < cur" by simp_all
    from seed [OF this] obtain p' where p': "p' \<in> indices lab" "item lab p' = k'" by blast
    from p have "count_nonzero (\<lambda>x. x = k) lab > 0"
      using count_nonzero_pos [OF ws, of p "\<lambda>x. x = k"] by simp
    from argwhere_first(3) [OF ws this] p(1,2)
    have 1: "seed_offset lab k \<le> offset lab p" by (simp add: seed_offset_def)
    from p' have "count_nonzero (\<lambda>x. x = k') lab > 0"
      using count_nonzero_pos [OF ws, of p' "\<lambda>x. x = k'"] by simp
    from argwhere_first(1,2) [OF ws this]
    have "hd (argwhere (\<lambda>x. x = k') lab) \<in> indices lab" "item lab (hd (argwhere (\<lambda>x. x = k') lab)) = k'"
      by simp_all
    with p(3) k(2) have "offset lab p < seed_offset lab k'" by (simp add: seed_offset_def)
    with 1 show ?thesis by simp
  qed
  ultimately show ?thesis using r cur
    by (intro exI [of _ lab] exI [of _ "cur - 1"]) simp
qed

section \<open>The filtering loop\<close>

lemma new_label_le: "new_label c T a r \<le> max 0 r"
proof -
  have "length (filter (region_kept c T a) [1..r]) \<le> length [1..r]" by (rule length_filter_le)
  then show ?thesis by (simp add: new_label_def)
qed

lemma new_label_step:
  assumes "0 \<le> m"
  shows "new_label c T a (m + 1) = new_label c T a m + (if region_kept c T a (m + 1) then 1 else 0)"
proof -
  from assms have "[1..m + 1] = [1..m] @ [m + 1]" by (simp add: upto_rec2)
  then show ?thesis by (simp add: new_label_def)
qed

lemma new_label_less:
  assumes "1 \<le> r" and "r < r'" and "region_kept c T a r'"
  shows "new_label c T a r < new_label c T a r'"
proof -
  from assms have "[1..r'] = [1..r] @ [r + 1..r']" by (intro upto_split2) simp_all
  moreover from assms have "r' \<in> set (filter (region_kept c T a) [r + 1..r'])" by simp
  then have "0 < length (filter (region_kept c T a) [r + 1..r'])"
    by (cases "filter (region_kept c T a) [r + 1..r']") simp_all
  ultimately show ?thesis by (simp add: new_label_def)
qed

lemma new_label_pos:
  assumes "1 \<le> r" and "region_kept c T a r"
  shows "1 \<le> new_label c T a r"
proof -
  from assms have "r \<in> set (filter (region_kept c T a) [1..r])" by simp
  then have "0 < length (filter (region_kept c T a) [1..r])"
    by (cases "filter (region_kept c T a) [1..r]") simp_all
  then show ?thesis unfolding new_label_def by linarith
qed

lemma new_label_inj:
  assumes "1 \<le> r" "1 \<le> r'" "region_kept c T a r" "region_kept c T a r'"
    and "new_label c T a r = new_label c T a r'"
  shows "r = r'"
  using assms new_label_less [of r r' c T a] new_label_less [of r' r c T a]
  by (cases r r' rule: linorder_cases) simp_all

lemma relabel_eq_next:
  assumes "0 \<le> m"
  shows "relabel c T a m v = m + 1 \<longleftrightarrow> v = m + 1"
  using new_label_le [of c T a v] by (auto simp: relabel_def)

lemma relabel_step:
  assumes "0 \<le> m"
  shows "(if relabel c T a m v = m + 1
          then (if region_kept c T a (m + 1) then 1 + new_label c T a m else - 1)
          else relabel c T a m v) = relabel c T a (m + 1) v"
proof (cases "v = m + 1")
  case True
  with assms show ?thesis by (simp add: relabel_eq_next relabel_def new_label_step)
next
  case False
  with assms have "relabel c T a m v \<noteq> m + 1" by (simp add: relabel_eq_next)
  with False show ?thesis by (auto simp: relabel_def)
qed

lemma count_relabel:
  assumes "0 \<le> m"
  shows "count_nonzero (\<lambda>x. x = m + 1) (a\<lparr>flat := map (relabel c T a m) (flat a)\<rparr>)
         = count_nonzero (\<lambda>x. x = m + 1) a"
proof -
  have "filter ((\<lambda>x. x = m + 1) \<circ> relabel c T a m) (flat a) = filter (\<lambda>x. x = m + 1) (flat a)"
    by (rule filter_cong) (simp_all add: relabel_eq_next [OF assms])
  then show ?thesis by (simp add: count_nonzero_def filter_map)
qed

lemma relabel_Suc:
  "(if relabel c T a (int m) v = int m + 1
    then (if region_kept c T a (int m + 1) then 1 + new_label c T a (int m) else - 1)
    else relabel c T a (int m) v) = relabel c T a (int (Suc m)) v"
proof -
  have e: "int (Suc m) = int m + 1" by simp
  show ?thesis unfolding e by (rule relabel_step) simp
qed

lemma new_label_Suc:
  "new_label c T a (int (Suc m)) = new_label c T a (int m) + (if region_kept c T a (int m + 1) then 1 else 0)"
proof -
  have e: "int (Suc m) = int m + 1" by simp
  show ?thesis unfolding e by (rule new_label_step) simp
qed

lemma fold_filter_step:
  "fold (filter_step c T) [1..int m] (a, [], 1) =
     (a\<lparr>flat := map (relabel c T a (int m)) (flat a)\<rparr>,
      map (\<lambda>r. real (count_nonzero (\<lambda>x. x = r) a) * c) (filter (region_kept c T a) [1..int m]),
      1 + new_label c T a (int m))"
proof (induction m)
  case 0
  have "map (relabel c T a 0) (flat a) = flat a"
    by (rule map_idI) (simp add: relabel_def)
  then show ?case by (simp add: new_label_def)
next
  case (Suc m)
  let ?r = "int m + 1"
  let ?am = "a\<lparr>flat := map (relabel c T a (int m)) (flat a)\<rparr>"
  have up: "[1..int (Suc m)] = [1..int m] @ [?r]" by (simp add: upto_rec2)
  have cnt: "count_nonzero (\<lambda>x. x = ?r) ?am = count_nonzero (\<lambda>x. x = ?r) a"
    by (rule count_relabel) simp
  have fold_eq: "fold (filter_step c T) [1..int (Suc m)] (a, [], 1)
      = filter_step c T ?r (?am,
          map (\<lambda>r. real (count_nonzero (\<lambda>x. x = r) a) * c) (filter (region_kept c T a) [1..int m]),
          1 + new_label c T a (int m))"
    unfolding up fold_append by (simp only: comp_apply Suc.IH fold_simps)
  have asg: "assign_where (\<lambda>x. x = ?r) w ?am
      = a\<lparr>flat := map (\<lambda>v. if relabel c T a (int m) v = ?r then w else relabel c T a (int m) v) (flat a)\<rparr>"
    for w by (simp add: assign_where_def comp_def)
  show ?case
  proof (cases "region_kept c T a ?r")
    case True
    then have nk: "\<not> real (count_nonzero (\<lambda>x. x = ?r) a) * c < T" by (simp add: region_kept_def)
    have m1: "(\<lambda>v. if relabel c T a (int m) v = ?r then 1 + new_label c T a (int m)
                     else relabel c T a (int m) v) = relabel c T a (int (Suc m))"
    proof (rule ext)
      fix v
      from True have "(if region_kept c T a ?r then 1 + new_label c T a (int m) else - 1)
          = 1 + new_label c T a (int m)" by simp
      with relabel_Suc [of c T a m v]
      show "(if relabel c T a (int m) v = ?r then 1 + new_label c T a (int m)
             else relabel c T a (int m) v) = relabel c T a (int (Suc m)) v"
        by (simp only:)
    qed
    have f1: "filter (region_kept c T a) [1..int (Suc m)] = filter (region_kept c T a) [1..int m] @ [?r]"
      unfolding up using True by simp
    have n1: "1 + new_label c T a (int m) + 1 = 1 + new_label c T a (int (Suc m))"
      unfolding new_label_Suc using True by simp
    have "filter_step c T ?r (?am,
          map (\<lambda>r. real (count_nonzero (\<lambda>x. x = r) a) * c) (filter (region_kept c T a) [1..int m]),
          1 + new_label c T a (int m))
        = (a\<lparr>flat := map (relabel c T a (int (Suc m))) (flat a)\<rparr>,
           map (\<lambda>r. real (count_nonzero (\<lambda>x. x = r) a) * c) (filter (region_kept c T a) [1..int (Suc m)]),
           1 + new_label c T a (int (Suc m)))"
      unfolding filter_step_def using nk
      by (simp only: prod.case Let_def cnt if_False asg m1 f1 n1 map_append list.map)
    then show ?thesis by (simp only: fold_eq)
  next
    case False
    then have nk: "real (count_nonzero (\<lambda>x. x = ?r) a) * c < T" by (simp add: region_kept_def)
    have m1: "(\<lambda>v. if relabel c T a (int m) v = ?r then - 1
                     else relabel c T a (int m) v) = relabel c T a (int (Suc m))"
    proof (rule ext)
      fix v
      from False have "(if region_kept c T a ?r then 1 + new_label c T a (int m) else - 1) = - 1"
        by simp
      with relabel_Suc [of c T a m v]
      show "(if relabel c T a (int m) v = ?r then - 1
             else relabel c T a (int m) v) = relabel c T a (int (Suc m)) v"
        by (simp only:)
    qed
    have f1: "filter (region_kept c T a) [1..int (Suc m)] = filter (region_kept c T a) [1..int m]"
      unfolding up using False by simp
    have n1: "1 + new_label c T a (int m) = 1 + new_label c T a (int (Suc m))"
      unfolding new_label_Suc using False by simp
    have "filter_step c T ?r (?am,
          map (\<lambda>r. real (count_nonzero (\<lambda>x. x = r) a) * c) (filter (region_kept c T a) [1..int m]),
          1 + new_label c T a (int m))
        = (a\<lparr>flat := map (relabel c T a (int (Suc m))) (flat a)\<rparr>,
           map (\<lambda>r. real (count_nonzero (\<lambda>x. x = r) a) * c) (filter (region_kept c T a) [1..int (Suc m)]),
           1 + new_label c T a (int (Suc m)))"
      unfolding filter_step_def using nk
      by (simp only: prod.case Let_def cnt if_True asg m1 f1 n1)
    then show ?thesis by (simp only: fold_eq)
  qed
qed

lemma region_labellingD:
  assumes "region_labelling a R"
  shows "well_shaped a" and "flat a \<noteq> []" and "0 \<le> R"
    and "\<forall>x\<in>set (flat a). x = - 1 \<or> 1 \<le> x"
    and "{x \<in> set (flat a). 0 < x} = {1..R}"
    and "\<forall>k k'. 1 \<le> k \<and> k < k' \<and> k' \<le> R \<longrightarrow> seed_offset a k < seed_offset a k'"
proof -
  note r = assms [unfolded region_labelling_def]
  show "well_shaped a" using r by (elim conjE)
  show "flat a \<noteq> []" using r by (elim conjE)
  show "0 \<le> R" using r by (elim conjE)
  show "\<forall>x\<in>set (flat a). x = - 1 \<or> 1 \<le> x" using r by (elim conjE)
  show "{x \<in> set (flat a). 0 < x} = {1..R}" using r by (elim conjE)
  show "\<forall>k k'. 1 \<le> k \<and> k < k' \<and> k' \<le> R \<longrightarrow> seed_offset a k < seed_offset a k'"
    using r by (elim conjE)
qed

lemma region_labelling_values:
  assumes "region_labelling a R" and "x \<in> set (flat a)"
  shows "x = - 1 \<or> (1 \<le> x \<and> x \<le> R)"
proof -
  from region_labellingD(4) [OF assms(1)] assms(2) have "x = - 1 \<or> 1 \<le> x" by blast
  moreover have "x \<le> R" if "1 \<le> x"
  proof -
    from that assms(2) have "x \<in> {x \<in> set (flat a). 0 < x}" by simp
    then show ?thesis unfolding region_labellingD(5) [OF assms(1)] by simp
  qed
  ultimately show ?thesis by blast
qed

lemma region_labelling_present:
  assumes "region_labelling a R" and "1 \<le> k" and "k \<le> R"
  shows "k \<in> set (flat a)"
proof -
  from assms(2,3) have "k \<in> {1..R}" by simp
  then have "k \<in> {x \<in> set (flat a). 0 < x}" unfolding region_labellingD(5) [OF assms(1)] .
  then show ?thesis by simp
qed

lemma region_labelling_max:
  assumes "region_labelling a R"
  shows "\<exists>M. np_max a = Inr M \<and> [1..M] = [1..int (nat R)]"
proof (cases "1 \<le> R")
  case True
  from region_labelling_present [OF assms True] have "R \<in> set (flat a)" by simp
  moreover have "x \<le> R" if "x \<in> set (flat a)" for x
    using region_labelling_values [OF assms that] True by arith
  ultimately have "Max (set (flat a)) = R" by (intro Max_eqI) auto
  with region_labellingD(2,3) [OF assms] show ?thesis by (simp add: np_max_def)
next
  case False
  with region_labellingD(3) [OF assms] have R: "R = 0" by simp
  have "x = - 1" if "x \<in> set (flat a)" for x
    using region_labelling_values [OF assms that] R by arith
  moreover from region_labellingD(2) [OF assms] obtain x where "x \<in> set (flat a)"
    by (cases "flat a") auto
  ultimately have "Max (set (flat a)) = - 1" by (intro Max_eqI) auto
  with region_labellingD(2) [OF assms] R show ?thesis by (simp add: np_max_def)
qed

lemma new_label_prefix:
  assumes "1 \<le> v" and "v \<le> m"
  shows "new_label c T a v \<le> new_label c T a m"
proof -
  from assms have "[1..m] = [1..v] @ [v + 1..m]" by (intro upto_split2) simp_all
  then show ?thesis by (simp add: new_label_def)
qed

lemma map_new_label:
  "map (new_label c T a) (filter (region_kept c T a) [1..int m]) = [1..new_label c T a (int m)]"
proof (induction m)
  case 0
  show ?case by (simp add: new_label_def)
next
  case (Suc m)
  have up: "[1..int m + 1] = [1..int m] @ [int m + 1]" by (simp add: upto_rec2)
  have e: "int (Suc m) = int m + 1" by simp
  have nn: "0 \<le> new_label c T a (int m)" by (simp add: new_label_def)
  show ?case
  proof (cases "region_kept c T a (int m + 1)")
    case True
    then have n: "new_label c T a (int m + 1) = new_label c T a (int m) + 1"
      by (simp add: new_label_step)
    have "[1..new_label c T a (int m) + 1] = [1..new_label c T a (int m)] @ [new_label c T a (int m) + 1]"
      using nn by (simp add: upto_rec2)
    with True Suc.IH show ?thesis unfolding e up by (simp add: n)
  next
    case False
    then have n: "new_label c T a (int m + 1) = new_label c T a (int m)"
      by (simp add: new_label_step)
    with False Suc.IH show ?thesis unfolding e up by (simp add: n)
  qed
qed

lemma new_label_onto:
  assumes "1 \<le> k" and "k \<le> new_label c T a (int m)"
  shows "\<exists>v. 1 \<le> v \<and> v \<le> int m \<and> region_kept c T a v \<and> new_label c T a v = k"
proof -
  from assms have "k \<in> set [1..new_label c T a (int m)]" by simp
  then have "k \<in> set (map (new_label c T a) (filter (region_kept c T a) [1..int m]))"
    by (simp only: map_new_label)
  then show ?thesis by auto
qed

lemma relabelled_shape [simp]:
  "shape0 (relabelled c T a R) = shape0 a" "shape1 (relabelled c T a R) = shape1 a"
  "length (flat (relabelled c T a R)) = length (flat a)"
  "flat (relabelled c T a R) = map (relabel c T a R) (flat a)"
  by (simp_all add: relabelled_def)

lemma relabelled_well_shaped [simp]: "well_shaped (relabelled c T a R) = well_shaped a"
  by (simp add: well_shaped_def)

lemma relabelled_indices [simp]: "indices (relabelled c T a R) = indices a"
  by (simp add: indices_def)

lemma relabelled_offset [simp]: "offset (relabelled c T a R) p = offset a p"
  by (simp add: offset_def)

lemma item_relabelled:
  assumes "well_shaped a" and "p \<in> indices a"
  shows "item (relabelled c T a R) p = relabel c T a R (item a p)"
  using offset_less [OF assms] by (simp add: item_def)

lemma relabel_values:
  assumes "region_labelling a R" and "x \<in> set (flat a)"
  shows "relabel c T a R x = - 1 \<or> (1 \<le> relabel c T a R x \<and> relabel c T a R x \<le> new_label c T a R)"
proof (cases "1 \<le> x \<and> region_kept c T a x")
  case True
  with region_labelling_values [OF assms] have x: "1 \<le> x" "x \<le> R" "region_kept c T a x" by auto
  then have "relabel c T a R x = new_label c T a x" by (simp add: relabel_def)
  with new_label_pos [OF x(1,3)] new_label_prefix [OF x(1,2)] show ?thesis by simp
next
  case False
  with region_labelling_values [OF assms] show ?thesis by (auto simp: relabel_def)
qed

lemma relabel_eq_iff:
  assumes "region_labelling a R" and "x \<in> set (flat a)"
    and "1 \<le> v" and "v \<le> R" and "region_kept c T a v"
  shows "relabel c T a R x = new_label c T a v \<longleftrightarrow> x = v"
proof (cases "1 \<le> x \<and> region_kept c T a x")
  case True
  with region_labelling_values [OF assms(1,2)] have x: "1 \<le> x" "x \<le> R" "region_kept c T a x" by auto
  then have "relabel c T a R x = new_label c T a x" by (simp add: relabel_def)
  with new_label_inj [OF x(1) assms(3) x(3) assms(5)] show ?thesis by auto
next
  case False
  with region_labelling_values [OF assms(1,2)] have "relabel c T a R x = - 1 \<or> relabel c T a R x = x \<and> x = - 1"
    by (auto simp: relabel_def)
  with new_label_pos [OF assms(3,5)] False assms(3,5) show ?thesis by auto
qed

lemma count_relabelled:
  assumes "region_labelling a R" and "1 \<le> v" and "v \<le> R" and "region_kept c T a v"
  shows "count_nonzero (\<lambda>x. x = new_label c T a v) (relabelled c T a R) = count_nonzero (\<lambda>x. x = v) a"
proof -
  have "filter ((\<lambda>x. x = new_label c T a v) \<circ> relabel c T a R) (flat a) = filter (\<lambda>x. x = v) (flat a)"
    by (rule filter_cong) (simp_all add: relabel_eq_iff [OF assms(1) _ assms(2-4)])
  then show ?thesis by (simp add: count_nonzero_def filter_map)
qed

lemma argwhere_relabelled:
  assumes "region_labelling a R" and "1 \<le> v" and "v \<le> R" and "region_kept c T a v"
  shows "argwhere (\<lambda>x. x = new_label c T a v) (relabelled c T a R) = argwhere (\<lambda>x. x = v) a"
proof -
  have "filter (\<lambda>k. map (relabel c T a R) (flat a) ! k = new_label c T a v) [0..<length (flat a)]
      = filter (\<lambda>k. flat a ! k = v) [0..<length (flat a)]"
    by (rule filter_cong) (simp_all add: relabel_eq_iff [OF assms(1) _ assms(2-4)])
  then show ?thesis by (simp add: argwhere_def unravel_def)
qed

lemma filter_regions_closed:
  assumes "region_labelling a R"
  shows "filter_regions c T a =
     Inr (relabelled c T a R,
          map (\<lambda>r. real (count_nonzero (\<lambda>x. x = r) a) * c) (filter (region_kept c T a) [1..R]),
          1 + new_label c T a R)"
proof -
  from region_labelling_max [OF assms] obtain M where
    M: "np_max a = Inr M" "[1..M] = [1..int (nat R)]" by blast
  from region_labellingD(3) [OF assms] have R: "int (nat R) = R" by simp
  have "relabel c T a R x \<noteq> 0" if "x \<in> set (flat a)" for x
    using relabel_values [OF assms that, of c T] by auto
  then have "np_all (\<lambda>x. x \<noteq> 0) (relabelled c T a R)"
    by (simp add: np_all_def list_all_iff)
  moreover have "fold (filter_step c T) [1..M] (a, [], 1) =
     (relabelled c T a R,
      map (\<lambda>r. real (count_nonzero (\<lambda>x. x = r) a) * c) (filter (region_kept c T a) [1..R]),
      1 + new_label c T a R)"
    using fold_filter_step [of c T "nat R" a] unfolding M(2) R relabelled_def .
  ultimately show ?thesis
    by (simp add: filter_regions_def M(1) del: upto.simps)
qed

lemma relabelled_labelling:
  assumes "region_labelling a R"
  shows "region_labelling (relabelled c T a R) (new_label c T a R)"
  unfolding region_labelling_def
proof (intro conjI)
  let ?b = "relabelled c T a R"
  from region_labellingD(3) [OF assms] have R: "int (nat R) = R" by simp
  show "well_shaped ?b" using region_labellingD(1) [OF assms] by simp
  show "flat ?b \<noteq> []" using region_labellingD(2) [OF assms] by simp
  show "0 \<le> new_label c T a R" by (simp add: new_label_def)
  show "\<forall>x\<in>set (flat ?b). x = - 1 \<or> 1 \<le> x"
    using relabel_values [OF assms, of _ c T] by auto
  have onto: "\<exists>v. 1 \<le> v \<and> v \<le> R \<and> region_kept c T a v \<and> new_label c T a v = k"
    if "1 \<le> k" "k \<le> new_label c T a R" for k
    using new_label_onto [of k c T a "nat R"] that unfolding R by blast
  show "{x \<in> set (flat ?b). 0 < x} = {1..new_label c T a R}"
  proof (intro set_eqI iffI)
    fix k assume "k \<in> {x \<in> set (flat ?b). 0 < x}"
    then obtain x where "x \<in> set (flat a)" "k = relabel c T a R x" "0 < k" by auto
    with relabel_values [OF assms this(1), of c T] show "k \<in> {1..new_label c T a R}" by auto
  next
    fix k assume "k \<in> {1..new_label c T a R}"
    then have k: "1 \<le> k" "k \<le> new_label c T a R" by simp_all
    from onto [OF this] obtain v where v: "1 \<le> v" "v \<le> R" "region_kept c T a v" "new_label c T a v = k"
      by blast
    from region_labelling_present [OF assms v(1,2)] have "v \<in> set (flat a)" .
    moreover from v have "relabel c T a R v = k" by (simp add: relabel_def)
    ultimately have "k \<in> set (flat ?b)" by force
    with k show "k \<in> {x \<in> set (flat ?b). 0 < x}" by simp
  qed
  show "\<forall>k k'. 1 \<le> k \<and> k < k' \<and> k' \<le> new_label c T a R \<longrightarrow> seed_offset ?b k < seed_offset ?b k'"
  proof (intro allI impI)
    fix k k' assume kk: "1 \<le> k \<and> k < k' \<and> k' \<le> new_label c T a R"
    then have "1 \<le> k" "k \<le> new_label c T a R" by simp_all
    from onto [OF this] obtain v where v: "1 \<le> v" "v \<le> R" "region_kept c T a v" "new_label c T a v = k"
      by blast
    from kk have "1 \<le> k'" "k' \<le> new_label c T a R" by simp_all
    from onto [OF this] obtain v' where v': "1 \<le> v'" "v' \<le> R" "region_kept c T a v'" "new_label c T a v' = k'"
      by blast
    have "v < v'"
    proof (rule ccontr)
      assume "\<not> v < v'"
      then consider "v = v'" | "v' < v" by linarith
      then show False
      proof cases
        case 1
        with v(4) v'(4) kk show False by simp
      next
        case 2
        from new_label_less [OF v'(1) 2 v(3)] v(4) v'(4) kk show False by simp
      qed
    qed
    with v(1) v'(2) region_labellingD(6) [OF assms] have "seed_offset a v < seed_offset a v'" by blast
    moreover have "seed_offset ?b k = seed_offset a v"
      unfolding seed_offset_def v(4) [symmetric] argwhere_relabelled [OF assms v(1-3)] by simp
    moreover have "seed_offset ?b k' = seed_offset a v'"
      unfolding seed_offset_def v'(4) [symmetric] argwhere_relabelled [OF assms v'(1-3)] by simp
    ultimately show "seed_offset ?b k < seed_offset ?b k'" by simp
  qed
qed

lemma extractAllRegions_labelling:
  assumes "well_shaped occ" and "flat occ \<noteq> []"
  shows "\<exists>lab R. extractAllRegions occ = Some (Inr lab) \<and> region_labelling lab R
           \<and> shape0 lab = shape0 occ \<and> shape1 lab = shape1 occ"
proof -
  from extractAllRegions_coverage_aux [OF assms(1)] obtain lab where
    lab: "extractAllRegions occ = Some (Inr lab)" "shape0 lab = shape0 occ" "shape1 lab = shape1 occ"
      "well_shaped lab" "\<forall>x\<in>set (flat lab). x = - 1 \<or> 1 \<le> x"
    by blast
  from extractAllRegions_numbering_aux [OF assms(1)] lab(1) obtain R where
    R: "0 \<le> R" "{x \<in> set (flat lab). 0 < x} = {1..R}"
      "\<forall>k k'. 1 \<le> k \<and> k < k' \<and> k' \<le> R \<longrightarrow> seed_offset lab k < seed_offset lab k'"
    by auto
  from lab(2-4) assms have "flat lab \<noteq> []" by (auto simp: well_shaped_def)
  with lab R show ?thesis unfolding region_labelling_def by blast
qed

lemma filter_regions_areas:
  assumes "region_labelling a R"
  shows "map (\<lambda>r. real (count_nonzero (\<lambda>x. x = r) a) * c) (filter (region_kept c T a) [1..R])
       = map (\<lambda>k. real (count_nonzero (\<lambda>x. x = k) (relabelled c T a R)) * c) [1..new_label c T a R]"
proof -
  from region_labellingD(3) [OF assms] have R: "int (nat R) = R" by simp
  have "map (\<lambda>k. real (count_nonzero (\<lambda>x. x = k) (relabelled c T a R)) * c) [1..new_label c T a R]
      = map (\<lambda>k. real (count_nonzero (\<lambda>x. x = k) (relabelled c T a R)) * c)
          (map (new_label c T a) (filter (region_kept c T a) [1..R]))"
    using map_new_label [of c T a "nat R"] unfolding R by simp
  also have "\<dots> = map (\<lambda>r. real (count_nonzero (\<lambda>x. x = r) a) * c) (filter (region_kept c T a) [1..R])"
    unfolding map_map
    by (rule map_cong [OF refl]) (simp add: count_relabelled [OF assms])
  finally show ?thesis by simp
qed

lemma relabel_positive:
  assumes "region_labelling a R" and "x \<in> set (flat a)" and "1 \<le> relabel c T a R x"
  shows "1 \<le> x \<and> x \<le> R \<and> region_kept c T a x \<and> relabel c T a R x = new_label c T a x"
  using region_labelling_values [OF assms(1,2)] assms(3)
  by (auto simp: relabel_def split: if_splits)

lemma scene_filtered:
  "filter_regions 1 2 scene_labelled
     = Inr (\<lparr>shape0 = 3, shape1 = 3, flat = [- 1, - 1, - 1, 1, - 1, - 1, 1, 1, - 1]\<rparr>, [3], 2)"
  by code_simp

lemma scene_occupancy:
  "generateOccupancyMap scene_nav 2 1 1
     = Some (Inr (\<lparr>shape0 = 3, shape1 = 3, flat = [- 1, - 1, - 1, 1, - 1, - 1, 1, 1, - 1]\<rparr>, scene_coord))"
  by code_simp

lemma scene_labelling: "\<exists>R. region_labelling scene_labelled R"
proof -
  have "well_shaped scene_grid" "flat scene_grid \<noteq> []"
    by (simp_all add: well_shaped_def scene_grid_def)
  from extractAllRegions_labelling [OF this] scene_labels show ?thesis by auto
qed


lemma fold_filter_step_length:
  "fold (filter_step c T) rs (a, areas, cv) = (a', areas', cv') \<Longrightarrow> length (flat a') = length (flat a)"
proof (induction rs arbitrary: a areas cv)
  case Nil
  then show ?case by simp
next
  case (Cons r rs)
  obtain a1 areas1 cv1 where s: "filter_step c T r (a, areas, cv) = (a1, areas1, cv1)"
    by (cases "filter_step c T r (a, areas, cv)")
  then have "length (flat a1) = length (flat a)"
    by (auto simp: filter_step_def Let_def split: if_splits)
  with Cons.IH [of a1 areas1 cv1] Cons.prems s show ?case by simp
qed

lemma filter_regions_nonempty:
  assumes "filter_regions c T a = Inr (a', areas, cv)"
  shows "flat a \<noteq> []" and "length (flat a') = length (flat a)"
proof -
  from assms show ne: "flat a \<noteq> []"
    by (auto simp: filter_regions_def np_max_def split: if_splits)
  then have m: "np_max a = Inr (Max (set (flat a)))" by (simp add: np_max_def)
  obtain a1 areas1 cv1 where
    f: "fold (filter_step c T) [1..Max (set (flat a))] (a, [], 1) = (a1, areas1, cv1)"
    by (cases "fold (filter_step c T) [1..Max (set (flat a))] (a, [], 1)")
  with assms m have "a' = a1"
    by (simp add: filter_regions_def split: if_splits)
  with fold_filter_step_length [OF f] show "length (flat a') = length (flat a)" by simp
qed

lemma generateOccupancyMap_Inr:
  assumes "generateOccupancyMap nav T z precision = Some (Inr (lab, coord))"
  shows "\<exists>lab0 areas cv. extractAllRegions (fst (nav z precision)) = Some (Inr lab0)
           \<and> filter_regions (precision ^ 2) T lab0 = Inr (lab, areas, cv)
           \<and> coord = snd (nav z precision)"
  using assms
  by (auto simp: generateOccupancyMap_def Let_def split: prod.splits option.splits sum.splits)

lemma generateOccupancyMap_nonempty:
  assumes "generateOccupancyMap nav T z precision = Some (Inr (lab, coord))"
  shows "flat lab \<noteq> []"
proof -
  from generateOccupancyMap_Inr [OF assms] obtain lab0 areas cv where
    "filter_regions (precision ^ 2) T lab0 = Inr (lab, areas, cv)" by blast
  from filter_regions_nonempty [OF this] show ?thesis by auto
qed

lemma generateOccupancyMap_labelling:
  assumes "generateOccupancyMap nav T z precision = Some (Inr (lab, coord))"
    and "well_shaped (fst (nav z precision))"
  shows "\<exists>R. region_labelling lab R" and "shape0 lab = shape0 (fst (nav z precision))"
    and "shape1 lab = shape1 (fst (nav z precision))" and "coord = snd (nav z precision)"
proof -
  let ?occ = "fst (nav z precision)"
  from generateOccupancyMap_Inr [OF assms(1)] obtain lab0 areas cv where
    e: "extractAllRegions ?occ = Some (Inr lab0)"
    and f: "filter_regions (precision ^ 2) T lab0 = Inr (lab, areas, cv)"
    and c: "coord = snd (nav z precision)" by blast
  show "coord = snd (nav z precision)" by (rule c)
  from extractAllRegions_coverage_aux [OF assms(2)] e
  have sh: "shape0 lab0 = shape0 ?occ" "shape1 lab0 = shape1 ?occ" "well_shaped lab0" by auto
  from filter_regions_nonempty(1) [OF f] sh assms(2) have "flat ?occ \<noteq> []"
    by (auto simp: well_shaped_def)
  from extractAllRegions_labelling [OF assms(2) this] e obtain R where
    R: "region_labelling lab0 R" by auto
  from filter_regions_closed [OF R, of "precision ^ 2" T] f
  have lab: "lab = relabelled (precision ^ 2) T lab0 R" by simp
  from relabelled_labelling [OF R, of "precision ^ 2" T] show "\<exists>R. region_labelling lab R"
    unfolding lab by blast
  show "shape0 lab = shape0 ?occ" "shape1 lab = shape1 ?occ" using sh by (simp_all add: lab)
qed

section \<open>The claims\<close>

text \<open>
  Claim C5. After \<open>extractAllRegions\<close> returns, every cell of the label grid is either the
  occupied mark \<open>-1\<close> or a positive label; no cell is left at the sentinel \<open>0\<close>. The call
  returns for every array (the assertion of line 75 never fails), and a grid with no free
  cell comes back entirely \<open>-1\<close>.
\<close>

theorem extractAllRegions_coverage:
  assumes "well_shaped occupacyGrid"
  shows "\<exists>lab. extractAllRegions occupacyGrid = Some (Inr lab)
           \<and> shape0 lab = shape0 occupacyGrid \<and> shape1 lab = shape1 occupacyGrid \<and> well_shaped lab
           \<and> (\<forall>x\<in>set (flat lab). x = - 1 \<or> 1 \<le> x)
           \<and> ((\<forall>x\<in>set (flat occupacyGrid). x \<noteq> 0) \<longrightarrow> (\<forall>x\<in>set (flat lab). x = - 1))"
  using assms by (rule extractAllRegions_coverage_aux)

theorem extractAllRegions_coverage_witness:
  "well_shaped \<lparr>shape0 = 2, shape1 = 3, flat = [0, 1, 0, 0, 1, 0 :: int]\<rparr>
   \<and> (\<exists>lab. extractAllRegions \<lparr>shape0 = 2, shape1 = 3, flat = [0, 1, 0, 0, 1, 0]\<rparr> = Some (Inr lab)
           \<and> shape0 lab = 2 \<and> shape1 lab = 3 \<and> well_shaped lab
           \<and> list_all (\<lambda>x. x = - 1 \<or> 1 \<le> x) (flat lab))"
  using extractAllRegions_coverage [of "\<lparr>shape0 = 2, shape1 = 3, flat = [0, 1, 0, 0, 1, 0]\<rparr>"]
  by (auto simp: well_shaped_def list_all_iff)

text \<open>
  Claim C4. In the label grid that \<open>extractAllRegions\<close> returns, every occupied (non-zero)
  input cell holds \<open>-1\<close>, every free (zero) input cell holds a positive label, and two free
  input cells hold the same label exactly when a path of 4-adjacent free cells of the input
  grid connects them.
\<close>

theorem extractAllRegions_connectivity:
  assumes "well_shaped occupacyGrid"
  shows "\<exists>lab. extractAllRegions occupacyGrid = Some (Inr lab)
           \<and> shape0 lab = shape0 occupacyGrid \<and> shape1 lab = shape1 occupacyGrid
           \<and> (\<forall>p\<in>indices occupacyGrid. item occupacyGrid p \<noteq> 0 \<longrightarrow> item lab p = - 1)
           \<and> (\<forall>p\<in>indices occupacyGrid. item occupacyGrid p = 0 \<longrightarrow> 1 \<le> item lab p)
           \<and> (\<forall>p\<in>indices occupacyGrid. \<forall>q\<in>indices occupacyGrid.
                 item occupacyGrid p = 0 \<and> item occupacyGrid q = 0 \<longrightarrow>
                 (item lab p = item lab q \<longleftrightarrow> free_connected occupacyGrid p q))"
proof -
  from extractAllRegions_spec [OF assms] obtain cur lab where
    r: "extractAllRegions occupacyGrid = Some (Inr lab)" and inv: "lab_inv occupacyGrid cur lab"
    and nz: "count_nonzero (\<lambda>x. x = 0) lab = 0"
    by blast
  note sh = lab_invD(2,3) [OF inv]
  have occ: "\<forall>p\<in>indices occupacyGrid. item occupacyGrid p \<noteq> 0 \<longrightarrow> item lab p = - 1"
    using lab_inv_values(1) [OF inv nz] by blast
  have pos: "\<forall>p\<in>indices occupacyGrid. item occupacyGrid p = 0 \<longrightarrow> 1 \<le> item lab p"
    using lab_inv_values(2) [OF inv nz] by blast
  have "item lab p = item lab q \<longleftrightarrow> free_connected occupacyGrid p q"
    if p: "p \<in> indices occupacyGrid" "item occupacyGrid p = 0"
      and q: "q \<in> indices occupacyGrid" "item occupacyGrid q = 0" for p q
  proof
    from pos p have nzp: "item lab p \<noteq> 0" by force
    {
      assume "item lab p = item lab q"
      with lab_invD(8) [OF inv] p q nzp show "free_connected occupacyGrid p q"
        unfolding free_iff by blast
    }
    {
      assume "free_connected occupacyGrid p q"
      with lab_invD(7) [OF inv] nzp show "item lab p = item lab q" by metis
    }
  qed
  then have "\<forall>p\<in>indices occupacyGrid. \<forall>q\<in>indices occupacyGrid.
                 item occupacyGrid p = 0 \<and> item occupacyGrid q = 0 \<longrightarrow>
                 (item lab p = item lab q \<longleftrightarrow> free_connected occupacyGrid p q)"
    by blast
  with r sh occ pos show ?thesis by blast
qed

theorem extractAllRegions_connectivity_witness:
  "well_shaped scene_grid \<and> extractAllRegions scene_grid = Some (Inr scene_labelled)
   \<and> free_connected scene_grid (1, 0) (2, 1) \<and> \<not> free_connected scene_grid (0, 1) (1, 0)"
proof -
  have ws: "well_shaped scene_grid" by (simp add: well_shaped_def scene_grid_def)
  from extractAllRegions_connectivity [OF ws] scene_labels
  have c: "\<forall>p\<in>indices scene_grid. \<forall>q\<in>indices scene_grid.
             item scene_grid p = 0 \<and> item scene_grid q = 0 \<longrightarrow>
             (item scene_labelled p = item scene_labelled q \<longleftrightarrow> free_connected scene_grid p q)"
    by simp
  have i: "(1, 0) \<in> indices scene_grid" "(2, 1) \<in> indices scene_grid" "(0, 1) \<in> indices scene_grid"
    by (simp_all add: indices_def scene_grid_def)
  have v: "item scene_grid (1, 0) = 0" "item scene_grid (2, 1) = 0" "item scene_grid (0, 1) = 0"
    by (simp_all add: item_def offset_def scene_grid_def)
  have l: "item scene_labelled (1, 0) = 2" "item scene_labelled (2, 1) = 2" "item scene_labelled (0, 1) = 1"
    by (simp_all add: item_def offset_def scene_labelled_def)
  from c i(1,2) v(1,2) l(1,2) have "free_connected scene_grid (1, 0) (2, 1)" by fastforce
  moreover from c i(3,1) v(3,1) l(3,1) have "\<not> free_connected scene_grid (0, 1) (1, 0)" by fastforce
  ultimately show ?thesis using ws scene_labels by simp
qed

text \<open>
  Claim C7. The positive labels of the grid that \<open>extractAllRegions\<close> returns are exactly
  \<open>1..R\<close> for some \<open>R \<ge> 0\<close>, and they are numbered in the order of the row-major scan: the
  seed (first cell in the scan) of a smaller label comes before the seed of a larger one.
\<close>

theorem extractAllRegions_numbering:
  assumes "well_shaped occupacyGrid"
  shows "\<exists>lab R. extractAllRegions occupacyGrid = Some (Inr lab) \<and> 0 \<le> R
           \<and> {x \<in> set (flat lab). 0 < x} = {1..R}
           \<and> (\<forall>k k'. 1 \<le> k \<and> k < k' \<and> k' \<le> R \<longrightarrow> seed_offset lab k < seed_offset lab k')"
  using assms by (rule extractAllRegions_numbering_aux)

theorem extractAllRegions_numbering_witness:
  "well_shaped scene_grid
   \<and> (\<exists>lab R. extractAllRegions scene_grid = Some (Inr lab) \<and> 0 \<le> R
           \<and> {x \<in> set (flat lab). 0 < x} = {1..R})"
proof -
  have ws: "well_shaped scene_grid" by (simp add: well_shaped_def scene_grid_def)
  from extractAllRegions_numbering [OF ws] show ?thesis using ws by blast
qed

text \<open>
  Claim C9. \<open>extractAllRegions\<close> never changes the array its caller passed: the call returns a
  reference to a new array, the label grid, and every array that was in the store before the
  call, the input among them, holds the values it held before.
\<close>

theorem extractAllRegions_store_frame:
  assumes "ref < length st" and "well_shaped (st ! ref)"
  shows "\<exists>new st'. extractAllRegions_store st ref = Some (Inr (new, st'))
           \<and> new = length st \<and> length st' = Suc (length st)
           \<and> st' ! ref = st ! ref \<and> (\<forall>r<length st. st' ! r = st ! r)
           \<and> extractAllRegions (st ! ref) = Some (Inr (st' ! new))"
proof -
  from extractAllRegions_spec [OF assms(2)] obtain lab where
    e: "extractAllRegions (st ! ref) = Some (Inr lab)" by blast
  from extractAllRegions_Some [OF e] obtain cur where
    l: "label_regions 1 (assign_where (\<lambda>x. x \<noteq> 0) (- 1) (st ! ref)) = Some (cur, lab)"
    and n: "np_all (\<lambda>x. x \<noteq> 0) lab" by blast
  have "extractAllRegions_store st ref = Some (Inr (length st, st @ [lab]))"
    by (simp add: extractAllRegions_store_def Let_def l n)
  with e assms(1) show ?thesis by (simp add: nth_append)
qed

theorem extractAllRegions_store_frame_witness:
  "(0::nat) < length [scene_grid] \<and> well_shaped ([scene_grid] ! 0)
   \<and> (\<exists>new st'. extractAllRegions_store [scene_grid] 0 = Some (Inr (new, st'))
           \<and> new = 1 \<and> st' ! 0 = scene_grid)"
  using extractAllRegions_store_frame [of 0 "[scene_grid]"]
  by (auto simp: well_shaped_def scene_grid_def)

text \<open>
  Claim C6. The filtering loop of \<open>generateOccupancyMap\<close>, run on a labelled grid with cell
  area \<open>cellArea\<close> and threshold \<open>minRegionArea\<close>: every surviving region has
  \<open>cellCount * cellArea \<ge> minRegionArea\<close>; every cell of a region whose area is below the
  threshold ends at \<open>-1\<close>; the survivors are renumbered \<open>1..R'\<close> without gaps
  (\<open>R' = curValidRegionId - 1\<close>), a smaller old label getting a smaller new label, so that
  the result is again numbered in the order of first appearance.
\<close>

theorem filter_regions_area_filter:
  assumes "region_labelling labeledNavMap R"
  shows "\<exists>lab' regionAreas curValidRegionId.
           filter_regions cellArea minRegionArea labeledNavMap = Inr (lab', regionAreas, curValidRegionId)
           \<and> shape0 lab' = shape0 labeledNavMap \<and> shape1 lab' = shape1 labeledNavMap
           \<and> region_labelling lab' (curValidRegionId - 1)
           \<and> (\<forall>k. 1 \<le> k \<and> k \<le> curValidRegionId - 1 \<longrightarrow>
                 minRegionArea \<le> real (count_nonzero (\<lambda>x. x = k) lab') * cellArea)
           \<and> (\<forall>p\<in>indices labeledNavMap.
                 1 \<le> item labeledNavMap p
                 \<and> real (count_nonzero (\<lambda>x. x = item labeledNavMap p) labeledNavMap) * cellArea < minRegionArea
                 \<longrightarrow> item lab' p = - 1)
           \<and> (\<forall>p\<in>indices labeledNavMap.
                 1 \<le> item labeledNavMap p
                 \<and> \<not> real (count_nonzero (\<lambda>x. x = item labeledNavMap p) labeledNavMap) * cellArea < minRegionArea
                 \<longrightarrow> 1 \<le> item lab' p)
           \<and> (\<forall>p\<in>indices labeledNavMap. item labeledNavMap p = - 1 \<longrightarrow> item lab' p = - 1)
           \<and> (\<forall>p\<in>indices labeledNavMap. \<forall>q\<in>indices labeledNavMap.
                 1 \<le> item lab' p \<and> 1 \<le> item lab' q \<longrightarrow>
                 (item lab' p < item lab' q \<longleftrightarrow> item labeledNavMap p < item labeledNavMap q))"
proof -
  let ?a = labeledNavMap and ?c = cellArea and ?T = minRegionArea
  let ?b = "relabelled ?c ?T ?a R"
  note ws = region_labellingD(1) [OF assms]
  from region_labellingD(3) [OF assms] have R: "int (nat R) = R" by simp
  have mem: "item ?a p \<in> set (flat ?a)" if "p \<in> indices ?a" for p
    using that by (auto simp: set_flat [OF ws])
  have it: "item ?b p = relabel ?c ?T ?a R (item ?a p)" if "p \<in> indices ?a" for p
    using ws that by (rule item_relabelled)
  have range: "1 \<le> item ?a p \<Longrightarrow> item ?a p \<le> R" if "p \<in> indices ?a" for p
    using region_labelling_values [OF assms mem [OF that]] by auto
  have 1: "?T \<le> real (count_nonzero (\<lambda>x. x = k) ?b) * ?c" if k: "1 \<le> k" "k \<le> new_label ?c ?T ?a R" for k
  proof -
    from new_label_onto [of k ?c ?T ?a "nat R"] k obtain v where
      v: "1 \<le> v" "v \<le> R" "region_kept ?c ?T ?a v" "new_label ?c ?T ?a v = k"
      unfolding R by blast
    from count_relabelled [OF assms v(1-3)] v(3,4) show ?thesis by (simp add: region_kept_def)
  qed
  have 2: "item ?b p = - 1"
    if "p \<in> indices ?a" "1 \<le> item ?a p" "real (count_nonzero (\<lambda>x. x = item ?a p) ?a) * ?c < ?T" for p
    using that range [OF that(1,2)] by (simp add: it relabel_def region_kept_def)
  have 3: "1 \<le> item ?b p"
    if "p \<in> indices ?a" "1 \<le> item ?a p" "\<not> real (count_nonzero (\<lambda>x. x = item ?a p) ?a) * ?c < ?T" for p
  proof -
    from that have "region_kept ?c ?T ?a (item ?a p)" by (simp add: region_kept_def)
    with that range [OF that(1,2)] new_label_pos [OF that(2) this] show ?thesis
      by (simp add: it relabel_def)
  qed
  have 4: "item ?b p = - 1" if "p \<in> indices ?a" "item ?a p = - 1" for p
    using that by (simp add: it relabel_def)
  have 5: "item ?b p < item ?b q \<longleftrightarrow> item ?a p < item ?a q"
    if "p \<in> indices ?a" "q \<in> indices ?a" "1 \<le> item ?b p" "1 \<le> item ?b q" for p q
  proof -
    from relabel_positive [OF assms mem [OF that(1)], of ?c ?T] that(3)
    have p: "1 \<le> item ?a p" "region_kept ?c ?T ?a (item ?a p)" "item ?b p = new_label ?c ?T ?a (item ?a p)"
      by (simp_all add: it [OF that(1)])
    from relabel_positive [OF assms mem [OF that(2)], of ?c ?T] that(4)
    have q: "1 \<le> item ?a q" "region_kept ?c ?T ?a (item ?a q)" "item ?b q = new_label ?c ?T ?a (item ?a q)"
      by (simp_all add: it [OF that(2)])
    show ?thesis
    proof (cases "item ?a p" "item ?a q" rule: linorder_cases)
      case less
      with new_label_less [OF p(1) less q(2)] show ?thesis by (simp add: p(3) q(3))
    next
      case equal
      then show ?thesis by (simp add: p(3) q(3))
    next
      case greater
      with new_label_less [OF q(1) greater p(2)] show ?thesis by (simp add: p(3) q(3))
    qed
  qed
  have "filter_regions ?c ?T ?a = Inr (?b,
          map (\<lambda>r. real (count_nonzero (\<lambda>x. x = r) ?a) * ?c) (filter (region_kept ?c ?T ?a) [1..R]),
          1 + new_label ?c ?T ?a R)"
    by (rule filter_regions_closed [OF assms])
  moreover have "region_labelling ?b (1 + new_label ?c ?T ?a R - 1)"
    using relabelled_labelling [OF assms, of ?c ?T] by simp
  moreover have "\<forall>k. 1 \<le> k \<and> k \<le> 1 + new_label ?c ?T ?a R - 1 \<longrightarrow>
                 ?T \<le> real (count_nonzero (\<lambda>x. x = k) ?b) * ?c"
    using 1 by simp
  ultimately show ?thesis using 2 3 4 5
    by (intro exI [of _ ?b] exI [of _ "1 + new_label ?c ?T ?a R"]
        exI [of _ "map (\<lambda>r. real (count_nonzero (\<lambda>x. x = r) ?a) * ?c) (filter (region_kept ?c ?T ?a) [1..R])"])
       (simp del: upto.simps)
qed

theorem filter_regions_area_filter_witness:
  "(\<exists>R. region_labelling scene_labelled R)
   \<and> (\<exists>lab' regionAreas curValidRegionId.
         filter_regions 1 2 scene_labelled = Inr (lab', regionAreas, curValidRegionId)
         \<and> region_labelling lab' (curValidRegionId - 1) \<and> curValidRegionId = 2
         \<and> flat lab' = [- 1, - 1, - 1, 1, - 1, - 1, 1, 1, - 1])"
proof -
  from scene_labelling obtain R where R: "region_labelling scene_labelled R" by blast
  from filter_regions_area_filter [OF R, of 1 2] scene_filtered
  show ?thesis using R by auto
qed

text \<open>
  Claim C3, as the code has it. \<open>generateOccupancyMap\<close> returns the pair of the filtered
  label grid and the coordinate map that \<open>calculate2dNavigationMap\<close> produced: the second
  component is not a list of areas. The list \<open>regionAreas\<close> that the loop builds, and that the
  method drops on return, is the list of the final areas (cell count times cell area) of the
  \<open>R'\<close> surviving regions in the order of their new labels \<open>1..R'\<close>; it is the list that
  \<open>generateSpawnPositions\<close> computes again from the returned grid.
\<close>

theorem generateOccupancyMap_returns:
  assumes "calculate2dNavigationMap z precision = (occupancyMap, occupancyMapCoord)"
    and "well_shaped occupancyMap" and "flat occupancyMap \<noteq> []"
  shows "\<exists>labeledNavMap lab' regionAreas curValidRegionId nbRegions.
           extractAllRegions occupancyMap = Some (Inr labeledNavMap)
           \<and> filter_regions (precision ^ 2) minRegionArea labeledNavMap
               = Inr (lab', regionAreas, curValidRegionId)
           \<and> generateOccupancyMap calculate2dNavigationMap minRegionArea z precision
               = Some (Inr (lab', occupancyMapCoord))
           \<and> regionAreas
               = map (\<lambda>k. real (count_nonzero (\<lambda>x. x = k) lab') * precision ^ 2) [1..curValidRegionId - 1]
           \<and> np_max lab' = Inr nbRegions
           \<and> regionAreas = region_areas (precision ^ 2) lab' nbRegions"
proof -
  let ?c = "precision ^ 2" and ?T = minRegionArea
  from extractAllRegions_labelling [OF assms(2,3)] obtain lab0 R where
    e: "extractAllRegions occupancyMap = Some (Inr lab0)" and R: "region_labelling lab0 R" by blast
  let ?b = "relabelled ?c ?T lab0 R"
  let ?areas = "map (\<lambda>r. real (count_nonzero (\<lambda>x. x = r) lab0) * ?c) (filter (region_kept ?c ?T lab0) [1..R])"
  have f: "filter_regions ?c ?T lab0 = Inr (?b, ?areas, 1 + new_label ?c ?T lab0 R)"
    by (rule filter_regions_closed [OF R])
  have g: "generateOccupancyMap calculate2dNavigationMap ?T z precision = Some (Inr (?b, occupancyMapCoord))"
    by (simp add: generateOccupancyMap_def Let_def assms(1) e f)
  have a: "?areas = map (\<lambda>k. real (count_nonzero (\<lambda>x. x = k) ?b) * ?c) [1..new_label ?c ?T lab0 R]"
    by (rule filter_regions_areas [OF R])
  have nn: "int (nat (new_label ?c ?T lab0 R)) = new_label ?c ?T lab0 R" by (simp add: new_label_def)
  from region_labelling_max [OF relabelled_labelling [OF R, of ?c ?T]] obtain M where
    M: "np_max ?b = Inr M" "[1..M] = [1..new_label ?c ?T lab0 R]" unfolding nn by blast
  have "?areas = region_areas ?c ?b M" unfolding region_areas_def M(2) by (rule a)
  with e f g a M(1) show ?thesis
    by (intro exI [of _ lab0] exI [of _ ?b] exI [of _ ?areas] exI [of _ "1 + new_label ?c ?T lab0 R"]
        exI [of _ M]) (simp del: upto.simps)
qed

theorem generateOccupancyMap_returns_witness:
  "scene_nav 1 1 = (scene_grid, scene_coord) \<and> well_shaped scene_grid \<and> flat scene_grid \<noteq> []
   \<and> (\<exists>lab' regionAreas curValidRegionId.
         filter_regions (1 ^ 2) 2 scene_labelled = Inr (lab', regionAreas, curValidRegionId)
         \<and> generateOccupancyMap scene_nav 2 1 1 = Some (Inr (lab', scene_coord))
         \<and> regionAreas = map (\<lambda>k. real (count_nonzero (\<lambda>x. x = k) lab') * 1 ^ 2) [1..curValidRegionId - 1])"
proof -
  have h: "scene_nav 1 1 = (scene_grid, scene_coord)" "well_shaped scene_grid" "flat scene_grid \<noteq> []"
    by (simp_all add: scene_nav_def well_shaped_def scene_grid_def)
  from generateOccupancyMap_returns [of scene_nav 1 1 scene_grid scene_coord 2, OF h] scene_labels
  show ?thesis using h by auto
qed

text \<open>
  Claim C3 as stated fails on the scene: the second component of the returned pair is the
  coordinate map of the scene, while the areas of the surviving regions are the list \<open>[3]\<close>.
\<close>

theorem generateOccupancyMap_returns_coordinates:
  "generateOccupancyMap scene_nav 2 1 1
     = Some (Inr (\<lparr>shape0 = 3, shape1 = 3, flat = [- 1, - 1, - 1, 1, - 1, - 1, 1, 1, - 1]\<rparr>, scene_coord))
   \<and> filter_regions (1 ^ 2) 2 scene_labelled
     = Inr (\<lparr>shape0 = 3, shape1 = 3, flat = [- 1, - 1, - 1, 1, - 1, - 1, 1, 1, - 1]\<rparr>, [3], 2)
   \<and> flat scene_coord = [(0, 0), (0, 1), (0, 2), (1, 0), (1, 1), (1, 2), (2, 0), (2, 1), (2, 2)]"
  using scene_occupancy scene_filtered by (simp add: scene_coord_def)

end
